theory Spec2Isabelle
  imports Main "HOL-Library.Monad_Syntax"
begin

section \<open>Bytes, slices and the Go library functions the package calls\<close>

text \<open>
  A Go \<^verbatim>\<open>[]byte\<close> and a Go \<^verbatim>\<open>string\<close> are both sequences of bytes; they are modelled as
  \<^typ>\<open>string\<close> (a list of 8-bit \<^typ>\<open>char\<close>). Indices and lengths are \<^typ>\<open>nat\<close>; the brace-depth
  counter and the index variables that use \<open>-1\<close> for "not found" are \<^typ>\<open>int\<close>.

  A run-time panic (index or slice bounds out of range) is the value \<open>None\<close> of an
  \<open>option\<close>; a Go result pair \<^verbatim>\<open>(value, error)\<close> is a sum \<open>error + value\<close> with the error on
  the left.
\<close>

definition nl :: char where "nl = CHR 0x0A"
definition quote :: char where "quote = CHR 0x22"
definition backslash :: char where "backslash = CHR 0x5C"

text \<open>
  The slice expression \<^verbatim>\<open>s[lo:hi]\<close>. Go panics unless \<open>lo \<le> hi \<le> len(s)\<close> (for a byte
  slice the upper limit is the capacity, which is taken to be the length here).
\<close>

definition slice :: "'a list \<Rightarrow> nat \<Rightarrow> nat \<Rightarrow> 'a list option" where
  "slice s lo hi = (if lo \<le> hi \<and> hi \<le> length s then Some (take (hi - lo) (drop lo s)) else None)"

text \<open>\<^verbatim>\<open>isSpace\<close> of parser.go: space, tab, newline, carriage return, form feed.\<close>

definition isSpace :: "char \<Rightarrow> bool" where
  "isSpace b \<longleftrightarrow> b = CHR 0x20 \<or> b = CHR 0x09 \<or> b = CHR 0x0A \<or> b = CHR 0x0D \<or> b = CHR 0x0C"

text \<open>
  \<^verbatim>\<open>unicode.IsSpace(rune(b))\<close> for a single byte \<open>b\<close>, which is a rune in the Latin-1 range:
  tab, newline, vertical tab, form feed, carriage return, space, U+0085 and U+00A0.
\<close>

definition unicode_IsSpace :: "char \<Rightarrow> bool" where
  "unicode_IsSpace b \<longleftrightarrow> b = CHR 0x09 \<or> b = CHR 0x0A \<or> b = CHR 0x0B \<or> b = CHR 0x0C
     \<or> b = CHR 0x0D \<or> b = CHR 0x20 \<or> b = CHR 0x85 \<or> b = CHR 0xA0"

text \<open>
  \<^verbatim>\<open>strings.TrimSpace\<close> removes leading and trailing white space as defined by Unicode. On
  bytes: a white-space rune at the front (or at the back) of a string is one of the ASCII
  bytes 09..0D and 20, or the UTF-8 encoding of U+0085, U+00A0, U+1680, U+2000..U+200A,
  U+2028, U+2029, U+202F, U+205F or U+3000. \<open>utf8_spaces\<close> lists these encodings.
\<close>

definition utf8_spaces :: "string list" where
  "utf8_spaces =
     map (\<lambda>b. [b]) [CHR 0x09, CHR 0x0A, CHR 0x0B, CHR 0x0C, CHR 0x0D, CHR 0x20]
     @ [[CHR 0xC2, CHR 0x85], [CHR 0xC2, CHR 0xA0], [CHR 0xE1, CHR 0x9A, CHR 0x80]]
     @ map (\<lambda>b. [CHR 0xE2, CHR 0x80, b])
         [CHR 0x80, CHR 0x81, CHR 0x82, CHR 0x83, CHR 0x84, CHR 0x85, CHR 0x86, CHR 0x87,
          CHR 0x88, CHR 0x89, CHR 0x8A, CHR 0xA8, CHR 0xA9, CHR 0xAF]
     @ [[CHR 0xE2, CHR 0x81, CHR 0x9F], [CHR 0xE3, CHR 0x80, CHR 0x80]]"

text \<open>The first encoding of the list that the string starts with, if any.\<close>

fun leading_space :: "string list \<Rightarrow> string \<Rightarrow> string option" where
  "leading_space [] s = None"
| "leading_space (p # ps) s = (if take (length p) s = p then Some p else leading_space ps s)"

function trimLeading :: "string list \<Rightarrow> string \<Rightarrow> string" where
  "trimLeading ps s =
     (case leading_space ps s of
        None \<Rightarrow> s
      | Some p \<Rightarrow> if p = [] then s else trimLeading ps (drop (length p) s))"
  by pat_completeness auto

lemma leading_space_take: "leading_space ps s = Some p \<Longrightarrow> take (length p) s = p"
  by (induction ps) (auto split: if_splits)

termination trimLeading
proof (relation "measure (\<lambda>(ps, s). length s)")
  fix ps :: "string list" and s p :: string
  assume "leading_space ps s = Some p" and "p \<noteq> []"
  then have "take (length p) s = p" and "0 < length p"
    by (simp_all add: leading_space_take)
  then have "s \<noteq> []" by auto
  with \<open>0 < length p\<close> show "((ps, drop (length p) s), (ps, s)) \<in> measure (\<lambda>(ps, s). length s)"
    by simp
qed simp

declare trimLeading.simps [simp del]

definition strings_TrimSpace :: "string \<Rightarrow> string" where
  "strings_TrimSpace s =
     rev (trimLeading (map rev utf8_spaces) (rev (trimLeading utf8_spaces s)))"

text \<open>
  \<^verbatim>\<open>strings.Trim(s, cutset)\<close> and \<^verbatim>\<open>strings.TrimRight(s, cutset)\<close> for a cutset of ASCII bytes
  (the package passes \<^verbatim>\<open>"\""\<close> and \<^verbatim>\<open>"; \t\r\n"\<close>): the leading and trailing bytes that are in
  the cutset are removed.
\<close>

definition strings_TrimRight :: "string \<Rightarrow> string \<Rightarrow> string" where
  "strings_TrimRight s cutset = rev (dropWhile (\<lambda>c. c \<in> set cutset) (rev s))"

definition strings_Trim :: "string \<Rightarrow> string \<Rightarrow> string" where
  "strings_Trim s cutset = strings_TrimRight (dropWhile (\<lambda>c. c \<in> set cutset) s) cutset"

text \<open>
  \<^verbatim>\<open>strings.ToLower\<close>. On a string of ASCII bytes it maps \<open>A..Z\<close> to \<open>a..z\<close> and keeps every
  other byte. On a string with a byte from 0x80 on, Go decodes UTF-8 and applies the Unicode
  case tables of its library; that mapping is the parameter \<open>U\<close> of the model.
\<close>

definition ascii_lower :: "char \<Rightarrow> char" where
  "ascii_lower c =
     (if 0x41 \<le> (of_char c :: nat) \<and> (of_char c :: nat) \<le> 0x5A
      then char_of (of_char c + (0x20 :: nat)) else c)"

definition strings_ToLower :: "(string \<Rightarrow> string) \<Rightarrow> string \<Rightarrow> string" where
  "strings_ToLower U s =
     (if list_all (\<lambda>c. (of_char c :: nat) < 0x80) s then map ascii_lower s else U s)"

text \<open>\<^verbatim>\<open>bytes.LastIndexByte(s, c)\<close>: the index of the last \<open>c\<close> in \<open>s\<close>, or \<open>-1\<close>.\<close>

fun bytes_LastIndexByte :: "string \<Rightarrow> char \<Rightarrow> int" where
  "bytes_LastIndexByte [] c = -1"
| "bytes_LastIndexByte (x # xs) c =
     (let r = bytes_LastIndexByte xs c in
      if 0 \<le> r then r + 1 else if x = c then 0 else -1)"

text \<open>
  \<^verbatim>\<open>bytes.Split(s, sep)\<close> for a separator of one byte: the pieces of \<open>s\<close> between the
  separators, one piece more than there are separators (so one empty piece for an empty \<open>s\<close>).
\<close>

fun bytes_Split :: "string \<Rightarrow> char \<Rightarrow> string list" where
  "bytes_Split [] sep = [[]]"
| "bytes_Split (x # xs) sep =
     (if x = sep then [] # bytes_Split xs sep
      else (case bytes_Split xs sep of
              [] \<Rightarrow> [[x]]
            | piece # pieces \<Rightarrow> (x # piece) # pieces))"

section \<open>Nodes (node.go)\<close>

datatype Raw = Raw (Text: string) (raw_start: nat) (raw_end: nat)

datatype Node = RawNode Raw | StmtNode Stmt
and Stmt = Stmt (RawText: string) (stmt_start: nat) (stmt_end: nat) (Keyword: string)
  (HeadRaw: string) (HasBlock: bool) (LBraceRaw: string) (Body: "Node list")
  (RBraceRaw: string) (TrailingAfterR: string) (Modified: bool)

record File =
  Nodes :: "Node list"
  file_src :: string
  file_path :: string

section \<open>Helpers of parser.go\<close>

text \<open>\<^verbatim>\<open>trimRightSpace\<close>: the index walks down from the end while the byte before it is a space.\<close>

fun trimRightSpace_loop :: "string \<Rightarrow> nat \<Rightarrow> nat" where
  "trimRightSpace_loop s i =
     (if 0 < i \<and> isSpace (s ! (i - 1)) then trimRightSpace_loop s (i - 1) else i)"

declare trimRightSpace_loop.simps [simp del]

definition trimRightSpace :: "string \<Rightarrow> string" where
  "trimRightSpace s = take (trimRightSpace_loop s (length s)) s"

text \<open>
  \<^verbatim>\<open>findStmtStart\<close>: from \<open>last\<close> forward over spaces, not beyond \<open>pos\<close>. The read \<^verbatim>\<open>src[i]\<close>
  panics beyond the source.
\<close>

function findStmtStart :: "string \<Rightarrow> nat \<Rightarrow> nat \<Rightarrow> nat option" where
  "findStmtStart src i pos =
     (if i < pos then
        (if length src \<le> i then None
         else if isSpace (src ! i) then findStmtStart src (i + 1) pos
         else Some i)
      else Some i)"
  by pat_completeness auto
termination
  by (relation "measure (\<lambda>(src, i, pos). pos - i)") auto

declare findStmtStart.simps [simp del]

subsection \<open>firstIdent\<close>

text \<open>
  The inner loops of \<^verbatim>\<open>firstIdent\<close>: to the end of the line
  (\<^verbatim>\<open>for j < len(s) && s[j] != '\n'\<close>) and to the end of a block comment
  (\<^verbatim>\<open>for j+1 < len(s) && !(s[j] == '*' && s[j+1] == '/')\<close>).
\<close>

function firstIdent_lineEnd :: "string \<Rightarrow> nat \<Rightarrow> nat" where
  "firstIdent_lineEnd s j =
     (if j < length s \<and> s ! j \<noteq> nl then firstIdent_lineEnd s (j + 1) else j)"
  by pat_completeness auto
termination
  by (relation "measure (\<lambda>(s, j). length s - j)") auto

function firstIdent_blockEnd :: "string \<Rightarrow> nat \<Rightarrow> nat" where
  "firstIdent_blockEnd s j =
     (if j + 1 < length s \<and> \<not> (s ! j = CHR ''*'' \<and> s ! (j + 1) = CHR ''/'')
      then firstIdent_blockEnd s (j + 1) else j)"
  by pat_completeness auto
termination
  by (relation "measure (\<lambda>(s, j). length s - j)") auto

declare firstIdent_lineEnd.simps [simp del] firstIdent_blockEnd.simps [simp del]

lemma firstIdent_lineEnd_ge: "j \<le> firstIdent_lineEnd s j"
proof (induction s j rule: firstIdent_lineEnd.induct)
  case (1 s j)
  then show ?case
    by (subst firstIdent_lineEnd.simps) (auto simp: Suc_leD)
qed

lemma firstIdent_blockEnd_ge: "j \<le> firstIdent_blockEnd s j"
proof (induction s j rule: firstIdent_blockEnd.induct)
  case (1 s j)
  then show ?case
    by (subst firstIdent_blockEnd.simps) (auto simp: Suc_leD)
qed

text \<open>
  The first loop of \<^verbatim>\<open>firstIdent\<close> skips white space and comments; the result is the index
  at which it stops. After a line comment the index is one past the end of the line, which
  is \<open>len(s) + 1\<close> when the comment has no newline.
\<close>

function firstIdent_skip :: "string \<Rightarrow> nat \<Rightarrow> nat" where
  "firstIdent_skip s i =
     (if i < length s then
        (if unicode_IsSpace (s ! i) then firstIdent_skip s (i + 1)
         else if s ! i = CHR ''#'' then firstIdent_skip s (firstIdent_lineEnd s (i + 1) + 1)
         else if s ! i = CHR ''/'' \<and> i + 1 < length s
                 \<and> (s ! (i + 1) = CHR ''/'' \<or> s ! (i + 1) = CHR ''*'') then
           (if s ! (i + 1) = CHR ''/'' then firstIdent_skip s (firstIdent_lineEnd s (i + 2) + 1)
            else let j = firstIdent_blockEnd s (i + 2) in
                 firstIdent_skip s (if j + 1 < length s then j + 2 else j))
         else i)
      else i)"
  by pat_completeness auto
termination
proof (relation "measure (\<lambda>(s, i). length s - i)")
  fix s :: string and i j :: nat
  assume "i < length s" and j: "j = firstIdent_blockEnd s (i + 2)"
  have "i + 2 \<le> j" unfolding j by (rule firstIdent_blockEnd_ge)
  with \<open>i < length s\<close>
  show "((s, if j + 1 < length s then j + 2 else j), (s, i)) \<in> measure (\<lambda>(s, i). length s - i)"
    by auto
next
  fix s :: string and i :: nat
  assume "i < length s"
  moreover have "i + 1 \<le> firstIdent_lineEnd s (i + 1)" by (rule firstIdent_lineEnd_ge)
  ultimately
  show "((s, firstIdent_lineEnd s (i + 1) + 1), (s, i)) \<in> measure (\<lambda>(s, i). length s - i)"
    by auto
next
  fix s :: string and i :: nat
  assume "i < length s"
  moreover have "i + 2 \<le> firstIdent_lineEnd s (i + 2)" by (rule firstIdent_lineEnd_ge)
  ultimately
  show "((s, firstIdent_lineEnd s (i + 2) + 1), (s, i)) \<in> measure (\<lambda>(s, i). length s - i)"
    by auto
qed auto

declare firstIdent_skip.simps [simp del]

text \<open>The second loop collects bytes up to a space, \<open>{\<close> or \<open>;\<close>.\<close>

function firstIdent_collect :: "string \<Rightarrow> nat \<Rightarrow> nat" where
  "firstIdent_collect s i =
     (if i < length s then
        (if isSpace (s ! i) \<or> s ! i = CHR ''{'' \<or> s ! i = CHR '';'' then i
         else firstIdent_collect s (i + 1))
      else i)"
  by pat_completeness auto
termination
  by (relation "measure (\<lambda>(s, i). length s - i)") auto

declare firstIdent_collect.simps [simp del]

text \<open>
  \<^verbatim>\<open>firstIdent\<close>. The slice \<^verbatim>\<open>s[start:i]\<close> panics when the first loop has left \<open>start\<close> beyond
  the end of the string.
\<close>

definition firstIdent :: "string \<Rightarrow> string option" where
  "firstIdent s =
     (let start = firstIdent_skip s 0;
          i = firstIdent_collect s start
      in case slice s start i of
           None \<Rightarrow> None
         | Some tok \<Rightarrow> Some (strings_Trim (strings_TrimSpace tok) [quote]))"

section \<open>The writer (node.go, writer.go)\<close>

text \<open>
  A \<^verbatim>\<open>bytes.Buffer\<close> is the string written so far; \<^verbatim>\<open>writeTo\<close> takes the buffer and returns
  it extended. \<open>writeTo_lines\<close> is the loop over the lines of one body node: every line but
  the last is written with two spaces before it and a newline after it, the last one only
  when it is not empty, and without a newline.
\<close>

fun writeTo_lines :: "string list \<Rightarrow> string \<Rightarrow> string" where
  "writeTo_lines [] buf = buf"
| "writeTo_lines [ln] buf = (if 0 < length ln then buf @ ''  '' @ ln else buf)"
| "writeTo_lines (ln # lines) buf = writeTo_lines lines (buf @ ''  '' @ ln @ [nl])"

fun Node_writeTo :: "Node \<Rightarrow> string \<Rightarrow> string"
  and Stmt_writeTo :: "Stmt \<Rightarrow> string \<Rightarrow> string" where
  "Node_writeTo (RawNode r) buf = buf @ Text r"
| "Node_writeTo (StmtNode s) buf = Stmt_writeTo s buf"
| "Stmt_writeTo (Stmt rawText start end' keyword headRaw hasBlock lBraceRaw body rBraceRaw
       trailingAfterR modified) buf =
     (if \<not> modified \<and> rawText \<noteq> [] then buf @ rawText
      else if \<not> hasBlock then
        (if headRaw = [] then buf @ rawText
         else buf @ trimRightSpace headRaw @ [CHR '';''])
      else
        let head = trimRightSpace headRaw;
            head = (if head = [] then keyword else head);
            buf = buf @ head @ '' {'';
            buf =
              (if 0 < length body then
                 let buf = buf @ [nl];
                     buf = foldl (\<lambda>buf n. writeTo_lines (bytes_Split (Node_writeTo n []) nl) buf)
                             buf body
                 in if length buf = 0 \<or> last buf \<noteq> nl then buf @ [nl] else buf
               else buf)
        in buf @ ''}'' @ '';'')"

declare Stmt_writeTo.simps [simp del]

text \<open>\<^verbatim>\<open>File.Bytes\<close> (and \<^verbatim>\<open>File.WriteTo\<close> on an empty buffer).\<close>

definition WriteTo :: "File \<Rightarrow> string \<Rightarrow> string" where
  "WriteTo f w = foldl (\<lambda>buf n. Node_writeTo n buf) w (Nodes f)"

definition Bytes :: "File \<Rightarrow> string" where
  "Bytes f = foldl (\<lambda>buf n. Node_writeTo n buf) [] (Nodes f)"

section \<open>Editing (editing.go)\<close>

text \<open>The methods change the statement in place; the model returns the changed statement.\<close>

fun MarkModified :: "Stmt \<Rightarrow> Stmt" where
  "MarkModified (Stmt rawText start end' keyword headRaw hasBlock lBraceRaw body rBraceRaw
       trailingAfterR modified) =
     Stmt rawText start end' keyword headRaw hasBlock lBraceRaw body rBraceRaw
       trailingAfterR True"

fun ReplaceHead :: "Stmt \<Rightarrow> string \<Rightarrow> Stmt" where
  "ReplaceHead (Stmt rawText start end' keyword headRaw hasBlock lBraceRaw body rBraceRaw
       trailingAfterR modified) newHead =
     Stmt rawText start end' keyword newHead hasBlock lBraceRaw body rBraceRaw
       trailingAfterR True"

fun AppendToBody :: "Stmt \<Rightarrow> Node \<Rightarrow> Stmt" where
  "AppendToBody (Stmt rawText start end' keyword headRaw hasBlock lBraceRaw body rBraceRaw
       trailingAfterR modified) n =
     (if \<not> hasBlock
      then Stmt rawText start end' keyword headRaw True '' {'' ([] @ [n]) ''}'' [] True
      else Stmt rawText start end' keyword headRaw hasBlock lBraceRaw (body @ [n]) rBraceRaw
             trailingAfterR True)"

text \<open>The constructors call \<^verbatim>\<open>firstIdent\<close> on the head and panic where it does.\<close>

definition NewSimpleStmt :: "(string \<Rightarrow> string) \<Rightarrow> string \<Rightarrow> Stmt option" where
  "NewSimpleStmt U head =
     (let head = strings_TrimRight head [CHR '';'', CHR 0x20, CHR 0x09, CHR 0x0D, CHR 0x0A]
      in case firstIdent head of
           None \<Rightarrow> None
         | Some tok \<Rightarrow> Some (Stmt [] 0 0 (strings_ToLower U tok) head False [] [] [] [] True))"

definition NewBlockStmt :: "(string \<Rightarrow> string) \<Rightarrow> string \<Rightarrow> Node list \<Rightarrow> Stmt option" where
  "NewBlockStmt U head body =
     (let head = strings_TrimSpace head
      in case firstIdent head of
           None \<Rightarrow> None
         | Some tok \<Rightarrow>
             Some (Stmt [] 0 0 (strings_ToLower U tok) head True '' {'' body ''}'' [] True))"

section \<open>The parser (parser.go)\<close>

subsection \<open>The scan of the statement decomposer\<close>

text \<open>
  The local variables of the first loop of \<^verbatim>\<open>buildStmt\<close> form the record \<open>bs_state\<close>;
  \<open>buildStmt_body\<close> is one iteration of the loop and \<open>buildStmt_loop\<close> the loop. Every read
  \<^verbatim>\<open>seg[i]\<close> and \<^verbatim>\<open>seg[i+1]\<close> is under the guard \<^verbatim>\<open>i < len(seg)\<close> or \<^verbatim>\<open>i+1 < len(seg)\<close>.
\<close>

record bs_state =
  bs_i :: nat
  bs_depth :: int
  bs_inSlashStar :: bool
  bs_inLine :: bool
  bs_inString :: bool
  bs_braceOpen :: int
  bs_braceClose :: int

definition buildStmt_body :: "string \<Rightarrow> bs_state \<Rightarrow> bs_state" where
  "buildStmt_body seg st =
     (let i = bs_i st; c = seg ! i in
      if bs_inLine st then
        (if c = nl then st\<lparr>bs_inLine := False, bs_i := i + 1\<rparr> else st\<lparr>bs_i := i + 1\<rparr>)
      else if bs_inSlashStar st then
        (if c = CHR ''*'' \<and> i + 1 < length seg \<and> seg ! (i + 1) = CHR ''/''
         then st\<lparr>bs_inSlashStar := False, bs_i := i + 2\<rparr>
         else st\<lparr>bs_i := i + 1\<rparr>)
      else if bs_inString st then
        (if c = backslash \<and> i + 1 < length seg then st\<lparr>bs_i := i + 2\<rparr>
         else if c = quote then st\<lparr>bs_inString := False, bs_i := i + 1\<rparr>
         else st\<lparr>bs_i := i + 1\<rparr>)
      else if c = CHR ''/'' \<and> i + 1 < length seg \<and> seg ! (i + 1) = CHR ''*''
        then st\<lparr>bs_inSlashStar := True, bs_i := i + 2\<rparr>
      else if c = CHR ''/'' \<and> i + 1 < length seg \<and> seg ! (i + 1) = CHR ''/''
        then st\<lparr>bs_inLine := True, bs_i := i + 2\<rparr>
      else if c = CHR ''#'' then st\<lparr>bs_inLine := True, bs_i := i + 1\<rparr>
      else if c = quote then st\<lparr>bs_inString := True, bs_i := i + 1\<rparr>
      else if c = CHR ''{'' then
        st\<lparr>bs_braceOpen := (if bs_depth st = 0 \<and> bs_braceOpen st < 0 then int i
                             else bs_braceOpen st),
           bs_depth := bs_depth st + 1, bs_i := i + 1\<rparr>
      else if c = CHR ''}'' then
        (let depth = (if 0 < bs_depth st then bs_depth st - 1 else bs_depth st) in
         st\<lparr>bs_depth := depth,
            bs_braceClose := (if depth = 0 \<and> 0 \<le> bs_braceOpen st \<and> bs_braceClose st < 0
                              then int i else bs_braceClose st),
            bs_i := i + 1\<rparr>)
      else st\<lparr>bs_i := i + 1\<rparr>)"

lemma buildStmt_body_i: "bs_i st < bs_i (buildStmt_body seg st)"
  unfolding buildStmt_body_def Let_def
  by (simp split del: if_split add: if_distrib [of bs_i] cong: if_cong) simp

function buildStmt_loop :: "string \<Rightarrow> bs_state \<Rightarrow> bs_state" where
  "buildStmt_loop seg st =
     (if bs_i st < length seg then buildStmt_loop seg (buildStmt_body seg st) else st)"
  by pat_completeness auto
termination
proof (relation "measure (\<lambda>(seg, st). length seg - bs_i st)")
  fix seg :: string and st :: bs_state
  assume "bs_i st < length seg"
  with buildStmt_body_i [of st seg]
  show "((seg, buildStmt_body seg st), (seg, st)) \<in> measure (\<lambda>(seg, st). length seg - bs_i st)"
    by simp
qed simp

declare buildStmt_loop.simps [simp del]

function buildStmt_lbEnd :: "string \<Rightarrow> nat \<Rightarrow> nat \<Rightarrow> nat" where
  "buildStmt_lbEnd seg lbEnd braceClose =
     (if lbEnd < length seg \<and> isSpace (seg ! lbEnd) \<and> lbEnd < braceClose
      then buildStmt_lbEnd seg (lbEnd + 1) braceClose else lbEnd)"
  by pat_completeness auto
termination
  by (relation "measure (\<lambda>(seg, lbEnd, braceClose). length seg - lbEnd)") auto

function buildStmt_rbEnd :: "string \<Rightarrow> nat \<Rightarrow> nat \<Rightarrow> nat option" where
  "buildStmt_rbEnd seg rbEnd semi =
     (if rbEnd < semi then
        (if length seg \<le> rbEnd then None
         else if isSpace (seg ! rbEnd) then buildStmt_rbEnd seg (rbEnd + 1) semi
         else Some rbEnd)
      else Some rbEnd)"
  by pat_completeness auto
termination
  by (relation "measure (\<lambda>(seg, rbEnd, semi). semi - rbEnd)") auto

declare buildStmt_lbEnd.simps [simp del] buildStmt_rbEnd.simps [simp del]


subsection \<open>parseRange and buildStmt\<close>

text \<open>
  The error of \<^verbatim>\<open>buildStmt\<close>, \<^verbatim>\<open>errors.New("statement missing semicolon")\<close>.
\<close>

datatype error = StatementMissingSemicolon

text \<open>
  The local variables of the loop of \<^verbatim>\<open>parseRange\<close> form the record \<open>pr_state\<close>;
  \<open>parseRange_body\<close> is one iteration and \<open>parseRange_loop\<close> the loop. The source \<^verbatim>\<open>p.src\<close>
  is the argument \<open>src\<close>. \<open>buildStmt_keyword\<close> is the end of \<^verbatim>\<open>buildStmt\<close>, where the keyword
  is set and the statement returned.
\<close>

record pr_state =
  pr_i :: nat
  pr_last :: nat
  pr_depth :: int
  pr_inSlashStar :: bool
  pr_inLine :: bool
  pr_inString :: bool
  pr_nodes :: "Node list"

definition buildStmt_keyword ::
  "(string \<Rightarrow> string) \<Rightarrow> string \<Rightarrow> nat \<Rightarrow> string \<Rightarrow> bool \<Rightarrow> string \<Rightarrow> Node list \<Rightarrow> string
     \<Rightarrow> string \<Rightarrow> (error + Stmt) option" where
  "buildStmt_keyword U seg absStart headRaw hasBlock lBraceRaw body rBraceRaw trailingAfterR =
     (case firstIdent headRaw of
        None \<Rightarrow> None
      | Some tok \<Rightarrow>
          Some (Inr (Stmt seg absStart (absStart + length seg) (strings_ToLower U tok)
                       headRaw hasBlock lBraceRaw body rBraceRaw trailingAfterR False)))"

function parseRange :: "(string \<Rightarrow> string) \<Rightarrow> string \<Rightarrow> nat \<Rightarrow> nat \<Rightarrow> (error + Node list) option"
  and parseRange_loop :: "(string \<Rightarrow> string) \<Rightarrow> string \<Rightarrow> nat \<Rightarrow> pr_state \<Rightarrow> pr_state option"
  and parseRange_body :: "(string \<Rightarrow> string) \<Rightarrow> string \<Rightarrow> nat \<Rightarrow> pr_state \<Rightarrow> pr_state option"
  and buildStmt :: "(string \<Rightarrow> string) \<Rightarrow> string \<Rightarrow> string \<Rightarrow> nat \<Rightarrow> (error + Stmt) option"
where
  "parseRange U src start end' =
     (case parseRange_loop U src end'
             \<lparr>pr_i = start, pr_last = start, pr_depth = 0, pr_inSlashStar = False,
              pr_inLine = False, pr_inString = False, pr_nodes = []\<rparr> of
        None \<Rightarrow> None
      | Some st \<Rightarrow>
          if pr_last st < end' then
            (case slice src (pr_last st) end' of
               None \<Rightarrow> None
             | Some text \<Rightarrow> Some (Inr (pr_nodes st @ [RawNode (Raw text (pr_last st) end')])))
          else Some (Inr (pr_nodes st)))"
| "parseRange_loop U src end' st =
     (if pr_i st < end' then
        (case parseRange_body U src end' st of
           None \<Rightarrow> None
         | Some st' \<Rightarrow> parseRange_loop U src end' st')
      else Some st)"
| "parseRange_body U src end' st =
     (let i = pr_i st in
      if length src \<le> i then None
      else let c = src ! i in
      if pr_inLine st then
        (if c = nl then Some (st\<lparr>pr_inLine := False, pr_i := i + 1\<rparr>)
         else Some (st\<lparr>pr_i := i + 1\<rparr>))
      else if pr_inSlashStar st then
        (if c = CHR ''*'' \<and> i + 1 < end' then
           (if length src \<le> i + 1 then None
            else if src ! (i + 1) = CHR ''/''
              then Some (st\<lparr>pr_inSlashStar := False, pr_i := i + 2\<rparr>)
            else Some (st\<lparr>pr_i := i + 1\<rparr>))
         else Some (st\<lparr>pr_i := i + 1\<rparr>))
      else if pr_inString st then
        (if c = backslash then
           (if i + 1 < end' then Some (st\<lparr>pr_i := i + 2\<rparr>) else Some (st\<lparr>pr_i := i + 1\<rparr>))
         else if c = quote then Some (st\<lparr>pr_inString := False, pr_i := i + 1\<rparr>)
         else Some (st\<lparr>pr_i := i + 1\<rparr>))
      else if c = CHR ''/'' \<and> i + 1 < end' \<and> length src \<le> i + 1 then None
      else if c = CHR ''/'' \<and> i + 1 < end' \<and> src ! (i + 1) = CHR ''*''
        then Some (st\<lparr>pr_inSlashStar := True, pr_i := i + 2\<rparr>)
      else if c = CHR ''/'' \<and> i + 1 < end' \<and> src ! (i + 1) = CHR ''/''
        then Some (st\<lparr>pr_inLine := True, pr_i := i + 2\<rparr>)
      else if c = CHR ''#'' then Some (st\<lparr>pr_inLine := True, pr_i := i + 1\<rparr>)
      else if c = quote then Some (st\<lparr>pr_inString := True, pr_i := i + 1\<rparr>)
      else if c = CHR ''{'' then Some (st\<lparr>pr_depth := pr_depth st + 1, pr_i := i + 1\<rparr>)
      else if c = CHR ''}'' then
        Some (st\<lparr>pr_depth := (if 0 < pr_depth st then pr_depth st - 1 else pr_depth st),
                 pr_i := i + 1\<rparr>)
      else if c = CHR '';'' \<and> pr_depth st = 0 then
        (case findStmtStart src (pr_last st) i of
           None \<Rightarrow> None
         | Some stmtStart \<Rightarrow>
             (case (if pr_last st < stmtStart then
                      (case slice src (pr_last st) stmtStart of
                         None \<Rightarrow> None
                       | Some text \<Rightarrow>
                           Some (pr_nodes st @ [RawNode (Raw text (pr_last st) stmtStart)]))
                    else Some (pr_nodes st)) of
                None \<Rightarrow> None
              | Some nodes \<Rightarrow>
                  (case slice src stmtStart (i + 1) of
                     None \<Rightarrow> None
                   | Some seg \<Rightarrow>
                       (case buildStmt U src seg stmtStart of
                          None \<Rightarrow> None
                        | Some (Inl err) \<Rightarrow>
                            Some (st\<lparr>pr_nodes := nodes @ [RawNode (Raw seg stmtStart (i + 1))],
                                     pr_last := i + 1, pr_i := i + 1\<rparr>)
                        | Some (Inr s) \<Rightarrow>
                            Some (st\<lparr>pr_nodes := nodes @ [StmtNode s],
                                     pr_last := i + 1, pr_i := i + 1\<rparr>)))))
      else Some (st\<lparr>pr_i := i + 1\<rparr>))"
| "buildStmt U src seg absStart =
     (let fin = buildStmt_loop seg
                  \<lparr>bs_i = 0, bs_depth = 0, bs_inSlashStar = False, bs_inLine = False,
                   bs_inString = False, bs_braceOpen = -1, bs_braceClose = -1\<rparr>;
          braceOpen = bs_braceOpen fin;
          braceClose = bs_braceClose fin;
          semi = bytes_LastIndexByte seg (CHR '';'')
      in
      if semi < 0 then Some (Inl StatementMissingSemicolon)
      else if 0 \<le> braceOpen \<and> 0 \<le> braceClose \<and> braceOpen < braceClose then
        (case slice seg 0 (nat braceOpen) of
           None \<Rightarrow> None
         | Some headRaw \<Rightarrow>
        let lbEnd = buildStmt_lbEnd seg (nat braceOpen + 1) (nat braceClose) in
        (case slice seg (nat braceOpen) lbEnd of
           None \<Rightarrow> None
         | Some lBraceRaw \<Rightarrow>
        let bodyStart = lbEnd; bodyEnd = nat braceClose in
        (case slice seg bodyStart bodyEnd of
           None \<Rightarrow> None
         | Some bodySrc \<Rightarrow>
        (case (if 0 < length bodySrc then
                 (case parseRange U src (absStart + bodyStart) (absStart + bodyEnd) of
                    None \<Rightarrow> None
                  | Some (Inl err) \<Rightarrow>
                      Some [RawNode (Raw bodySrc (absStart + bodyStart) (absStart + bodyEnd))]
                  | Some (Inr bodyNodes) \<Rightarrow> Some bodyNodes)
               else Some []) of
           None \<Rightarrow> None
         | Some body \<Rightarrow>
        (case buildStmt_rbEnd seg (nat braceClose + 1) (nat semi) of
           None \<Rightarrow> None
         | Some rbEnd \<Rightarrow>
        (case slice seg (nat braceClose) rbEnd of
           None \<Rightarrow> None
         | Some rBraceRaw \<Rightarrow>
        (case slice seg rbEnd (nat semi) of
           None \<Rightarrow> None
         | Some trailingAfterR \<Rightarrow>
             buildStmt_keyword U seg absStart headRaw True lBraceRaw body rBraceRaw
               trailingAfterR)))))))
      else
        (case slice seg 0 (nat semi) of
           None \<Rightarrow> None
         | Some headRaw \<Rightarrow> buildStmt_keyword U seg absStart headRaw False [] [] [] []))"
  by pat_completeness auto



lemma findStmtStart_ge: "findStmtStart src i pos = Some r \<Longrightarrow> i \<le> r"
proof (induction src i pos rule: findStmtStart.induct)
  case (1 src i pos)
  show ?case
  proof (cases "i < pos \<and> \<not> length src \<le> i \<and> isSpace (src ! i)")
    case True
    with "1.prems" have "findStmtStart src (i + 1) pos = Some r"
      by (subst (asm) findStmtStart.simps) simp
    with True "1.IH" have "i + 1 \<le> r" by simp
    then show ?thesis by simp
  next
    case False
    with "1.prems" show ?thesis
      by (subst (asm) findStmtStart.simps) (auto split: if_splits)
  qed
qed

lemma buildStmt_lbEnd_ge: "lbEnd \<le> buildStmt_lbEnd seg lbEnd braceClose"
proof (induction seg lbEnd braceClose rule: buildStmt_lbEnd.induct)
  case (1 seg lbEnd braceClose)
  then show ?case
    by (subst buildStmt_lbEnd.simps) (auto simp: Suc_leD)
qed

lemma slice_length: "slice s lo hi = Some t \<Longrightarrow> lo \<le> hi \<and> hi \<le> length s \<and> length t = hi - lo"
  by (auto simp: slice_def split: if_splits)

text \<open>One iteration moves the index forward and leaves \<open>last\<close> or sets it to the new index.\<close>

lemma parseRange_body_progress:
  assumes dom: "parseRange_parseRange_loop_parseRange_body_buildStmt_dom
                  (Inr (Inl (U, src, end', st)))"
    and res: "parseRange_body U src end' st = Some st'"
  shows "pr_i st < pr_i st' \<and> (pr_last st' = pr_last st \<or> pr_last st' = pr_i st + 1)"
  using res unfolding parseRange_body.psimps [OF dom] Let_def
  by (auto split: if_splits option.splits sum.splits)

termination parseRange
proof (relation "inv_image (less_than <*lex*> less_than)
    (\<lambda>x. case x of
        Inl (Inl (U, src, start, end')) \<Rightarrow> (2 * (end' - start) + 1, 2 * (end' - start) + 2)
      | Inl (Inr (U, src, end', st)) \<Rightarrow>
          (2 * (end' - min (pr_last st) (pr_i st)) + 1, 2 * (end' - pr_i st) + 1)
      | Inr (Inl (U, src, end', st)) \<Rightarrow> (2 * (pr_i st + 1 - min (pr_last st) (pr_i st)) + 1, 0)
      | Inr (Inr (U, src, seg, absStart)) \<Rightarrow> (2 * length seg, 0))", goal_cases)
  case 1
  show ?case by (intro wf_inv_image wf_lex_prod wf_less_than)
next
  case (2 U src start end')
  show ?case by simp
next
  case (3 U src end' st)
  then show ?case by (auto simp: min_def)
next
  case (4 U src end' st st')
  from parseRange_body_progress [OF 4(3) 4(2)] 4(1)
  show ?case by (auto simp: min_def)
next
  case (5 U src end' st i c stmtStart nodes seg)
  from 5(15) have "pr_last st \<le> stmtStart" unfolding 5(1) by (rule findStmtStart_ge)
  moreover from 5(17) have "length seg = i + 1 - stmtStart" by (simp add: slice_length)
  ultimately show ?case unfolding 5(1) by (auto simp: min_def)
next
  case (6 U src seg absStart fin braceOpen braceClose semi headRaw lbEnd lBraceRaw bodyStart
      bodyEnd bodySrc)
  have "nat braceOpen + 1 \<le> lbEnd" unfolding 6(8) by (rule buildStmt_lbEnd_ge)
  moreover from 6(12) have "bodyStart \<le> bodyEnd \<and> bodyEnd \<le> length seg"
    by (simp add: slice_length)
  ultimately show ?case using 6(10) by auto
qed


declare parseRange.simps [simp del] parseRange_loop.simps [simp del]
  parseRange_body.simps [simp del] buildStmt.simps [simp del]

text \<open>\<^verbatim>\<open>Parse\<close> of node.go.\<close>

definition Parse :: "(string \<Rightarrow> string) \<Rightarrow> string \<Rightarrow> (error + File) option" where
  "Parse U src =
     (case parseRange U src 0 (length src) of
        None \<Rightarrow> None
      | Some (Inl err) \<Rightarrow> Some (Inl err)
      | Some (Inr nodes) \<Rightarrow> Some (Inr \<lparr>Nodes = nodes, file_src = src, file_path = []\<rparr>))"

section \<open>The writer on unmodified statements\<close>

text \<open>
  Claim C7 says that a statement with \<open>Modified = False\<close> is written as its \<open>RawText\<close> whatever
  the other fields hold. The guard of \<^verbatim>\<open>writeTo\<close> is \<^verbatim>\<open>!s.Modified && s.RawText != ""\<close>: an
  unmodified statement with an empty \<open>RawText\<close> is regenerated from its fields. The statement
  below has \<open>Modified = False\<close>, an empty \<open>RawText\<close> and the head \<open>x\<close>, and is written as \<open>x;\<close>.
\<close>

theorem C7_counterexample:
  "\<not> Modified (Stmt [] 0 0 [] ''x'' False [] [] [] [] False)
   \<and> Stmt_writeTo (Stmt [] 0 0 [] ''x'' False [] [] [] [] False) [] = ''x;''
   \<and> Stmt_writeTo (Stmt [] 0 0 [] ''x'' False [] [] [] [] False) []
       \<noteq> [] @ RawText (Stmt [] 0 0 [] ''x'' False [] [] [] [] False)"
  by code_simp

text \<open>
  Claim C7, amended: a statement with \<open>Modified = False\<close> and a non-empty \<open>RawText\<close> is written
  as exactly its \<open>RawText\<close>, appended to the buffer, whatever the structured fields hold.
\<close>

theorem C7_unmodified_verbatim:
  "\<not> Modified s \<Longrightarrow> RawText s \<noteq> [] \<Longrightarrow> Stmt_writeTo s buf = buf @ RawText s"
  by (cases s) (simp add: Stmt_writeTo.simps)

theorem C7_unmodified_verbatim_witness:
  "Stmt_writeTo (Stmt ''a;'' 0 2 ''zzz'' ''b'' True ''{'' [] ''}'' ''t'' False) ''x'' = ''xa;''"
  using C7_unmodified_verbatim [of "Stmt ''a;'' 0 2 ''zzz'' ''b'' True ''{'' [] ''}'' ''t'' False" "''x''"]
  by simp

section \<open>Comments before a statement\<close>

text \<open>
  Claim C4 says that a comment before a statement stays in the preceding \<open>Raw\<close> node and is
  not part of the statement. \<^verbatim>\<open>findStmtStart\<close> skips spaces only, so the statement starts at
  the comment: the source \<^verbatim>\<open># c\<close>, newline, \<^verbatim>\<open>a;\<close> is parsed to one statement that begins at
  offset 0 with the comment in its \<open>RawText\<close> and its \<open>HeadRaw\<close>, and to no \<open>Raw\<close> node.
\<close>

theorem C4_comment_inside_statement:
  "Parse U ''# c\<newline>a;'' =
     Some (Inr \<lparr>Nodes = [StmtNode (Stmt ''# c\<newline>a;'' 0 6 ''a'' ''# c\<newline>a'' False [] [] [] []
                                    False)],
               file_src = ''# c\<newline>a;'', file_path = []\<rparr>)"
  by code_simp

section \<open>The regenerated block format\<close>

text \<open>
  The format that the specification gives for a modified block statement, written from its
  words: \<open>spec_indent\<close> puts two spaces before every line of a text (a line ends with its
  newline; a last line without a newline counts when it is not empty), \<open>spec_rtrim\<close> removes
  trailing spaces, \<open>spec_head\<close> is the trimmed head, or the keyword when \<open>HeadRaw\<close> is empty,
  \<open>spec_body\<close> the indented output of the body nodes and \<open>spec_interior\<close> what stands between
  the braces: nothing for an empty body, otherwise a newline, the body, and one more newline
  unless the text already ends with one.
\<close>

function spec_indent :: "string \<Rightarrow> string" where
  "spec_indent t =
     (if t = [] then []
      else ''  '' @ takeWhile (\<lambda>c. c \<noteq> nl) t @
           (case dropWhile (\<lambda>c. c \<noteq> nl) t of
              [] \<Rightarrow> []
            | c # rest \<Rightarrow> c # spec_indent rest))"
  by pat_completeness auto
termination spec_indent
proof (relation "measure length")
  fix t :: string and c rest
  assume "dropWhile (\<lambda>c. c \<noteq> nl) t = c # rest"
  then have "length (c # rest) \<le> length t"
    by (metis length_dropWhile_le)
  then show "(rest, t) \<in> measure length" by simp
qed simp

declare spec_indent.simps [simp del]

definition spec_rtrim :: "string \<Rightarrow> string" where
  "spec_rtrim s = rev (dropWhile isSpace (rev s))"

definition spec_head :: "Stmt \<Rightarrow> string" where
  "spec_head s = (if HeadRaw s = [] then Keyword s else spec_rtrim (HeadRaw s))"

text \<open>
  The head that \<^verbatim>\<open>writeTo\<close> writes: the code trims \<open>HeadRaw\<close> first and tests the trimmed text
  (\<^verbatim>\<open>head := trimRightSpace(s.HeadRaw); if head == "" { head = s.Keyword }\<close>), so the keyword
  also stands for a head of spaces only.
\<close>

definition written_head :: "Stmt \<Rightarrow> string" where
  "written_head s = (if spec_rtrim (HeadRaw s) = [] then Keyword s else spec_rtrim (HeadRaw s))"

definition spec_body :: "Node list \<Rightarrow> string" where
  "spec_body body = concat (map (\<lambda>n. spec_indent (Node_writeTo n [])) body)"

definition spec_interior :: "Node list \<Rightarrow> string" where
  "spec_interior body =
     (if body = [] then []
      else [nl] @ spec_body body @ (if last ([nl] @ spec_body body) = nl then [] else [nl]))"

lemma trimRightSpace_loop_take:
  "i \<le> length s \<Longrightarrow> take (trimRightSpace_loop s i) s = rev (dropWhile isSpace (rev (take i s)))"
proof (induction s i rule: trimRightSpace_loop.induct)
  case (1 s i)
  show ?case
  proof (cases "0 < i \<and> isSpace (s ! (i - 1))")
    case True
    then have i: "i = Suc (i - 1)" by simp
    from True "1.prems" have t: "take i s = take (i - 1) s @ [s ! (i - 1)]"
      by (metis i Suc_le_lessD take_Suc_conv_app_nth)
    from True have "trimRightSpace_loop s i = trimRightSpace_loop s (i - 1)"
      by (subst trimRightSpace_loop.simps) simp
    moreover from True "1.prems" "1.IH"
    have "take (trimRightSpace_loop s (i - 1)) s = rev (dropWhile isSpace (rev (take (i - 1) s)))"
      by simp
    ultimately show ?thesis using True by (simp add: t)
  next
    case False
    then have l: "trimRightSpace_loop s i = i"
      by (subst trimRightSpace_loop.simps) auto
    show ?thesis
    proof (cases "i = 0")
      case True
      with l show ?thesis by simp
    next
      case False
      with \<open>\<not> (0 < i \<and> isSpace (s ! (i - 1)))\<close> have ns: "\<not> isSpace (s ! (i - 1))" by simp
      from False have i: "i = Suc (i - 1)" by simp
      from False "1.prems" have t: "take i s = take (i - 1) s @ [s ! (i - 1)]"
        by (metis i Suc_le_lessD take_Suc_conv_app_nth)
      show ?thesis using ns by (simp add: l t)
    qed
  qed
qed

lemma trimRightSpace_spec: "trimRightSpace s = spec_rtrim s"
  using trimRightSpace_loop_take [of "length s" s]
  by (simp add: trimRightSpace_def spec_rtrim_def)

lemma bytes_Split_unfold:
  "bytes_Split t sep =
     takeWhile (\<lambda>c. c \<noteq> sep) t #
       (case dropWhile (\<lambda>c. c \<noteq> sep) t of [] \<Rightarrow> [] | c # rest \<Rightarrow> bytes_Split rest sep)"
proof (induction t)
  case Nil
  show ?case by simp
next
  case (Cons x xs)
  show ?case
  proof (cases "x = sep")
    case True
    then show ?thesis by simp
  next
    case False
    then show ?thesis by (subst bytes_Split.simps) (simp add: Cons.IH)
  qed
qed

lemma bytes_Split_not_Nil: "bytes_Split t sep \<noteq> []"
  by (subst bytes_Split_unfold) simp

lemma writeTo_lines_Cons:
  "writeTo_lines (ln # lines) buf =
     (if lines = [] then (if ln = [] then buf else buf @ ''  '' @ ln)
      else writeTo_lines lines (buf @ ''  '' @ ln @ [nl]))"
  by (cases lines) auto


lemma writeTo_lines_Split: "writeTo_lines (bytes_Split t nl) buf = buf @ spec_indent t"
proof (induction t arbitrary: buf rule: spec_indent.induct)
  case (1 t)
  show ?case
  proof (cases "dropWhile (\<lambda>c. c \<noteq> nl) t")
    case Nil
    then have tw: "takeWhile (\<lambda>c. c \<noteq> nl) t = t"
      by (metis append_Nil2 takeWhile_dropWhile_id)
    have "bytes_Split t nl = [t]"
      by (subst bytes_Split_unfold) (simp only: Nil tw list.case)
    moreover have "spec_indent t = (if t = [] then [] else ''  '' @ t)"
      by (subst spec_indent.simps) (simp only: Nil tw list.case append_Nil2)
    ultimately show ?thesis by simp
  next
    case (Cons c rest)
    then have ne: "t \<noteq> []" by auto
    have "\<not> (\<lambda>c. c \<noteq> nl) (hd (dropWhile (\<lambda>c. c \<noteq> nl) t))"
      by (rule hd_dropWhile) (simp only: Cons list.distinct not_False_eq_True)
    then have c: "c = nl" by (simp only: Cons list.sel not_not)
    have sp: "bytes_Split t nl = takeWhile (\<lambda>c. c \<noteq> nl) t # bytes_Split rest nl"
      by (subst bytes_Split_unfold) (simp only: Cons list.case)
    have si: "spec_indent t = ''  '' @ takeWhile (\<lambda>c. c \<noteq> nl) t @ nl # spec_indent rest"
      by (subst spec_indent.simps) (simp only: ne Cons c list.case if_False)
    have "writeTo_lines (bytes_Split rest nl) (buf @ ''  '' @ takeWhile (\<lambda>c. c \<noteq> nl) t @ [nl])
          = (buf @ ''  '' @ takeWhile (\<lambda>c. c \<noteq> nl) t @ [nl]) @ spec_indent rest"
      using ne Cons by (rule "1.IH")
    then show ?thesis
      by (simp only: sp si writeTo_lines_Cons bytes_Split_not_Nil if_False append_assoc
          append_Cons append_Nil)
  qed
qed


lemma foldl_writeTo_lines:
  "foldl (\<lambda>buf n. writeTo_lines (bytes_Split (Node_writeTo n []) nl) buf) buf body
     = buf @ spec_body body"
  by (induction body arbitrary: buf) (simp_all add: spec_body_def writeTo_lines_Split)

lemma Stmt_writeTo_block:
  "Modified s \<Longrightarrow> HasBlock s \<Longrightarrow>
     Stmt_writeTo s buf = buf @ written_head s @ '' {'' @ spec_interior (Body s) @ ''};''"
  by (cases s)
    (simp add: Stmt_writeTo.simps Let_def foldl_writeTo_lines trimRightSpace_spec
      spec_interior_def written_head_def)

lemma spec_indent_one_line:
  "t \<noteq> [] \<Longrightarrow> nl \<notin> set t \<Longrightarrow> spec_indent t = ''  '' @ t"
proof -
  assume ne: "t \<noteq> []" and "nl \<notin> set t"
  then have "\<forall>c\<in>set t. c \<noteq> nl" by auto
  then have tw: "takeWhile (\<lambda>c. c \<noteq> nl) t = t" and dw: "dropWhile (\<lambda>c. c \<noteq> nl) t = []"
    by simp_all
  show ?thesis
    by (subst spec_indent.simps) (simp only: ne tw dw list.case if_False append_Nil2)
qed

text \<open>
  Claim C5 says that the \<open>Keyword\<close> stands for the head if \<open>HeadRaw\<close> is empty. \<^verbatim>\<open>writeTo\<close>
  trims \<open>HeadRaw\<close> first and tests the trimmed text. The statement parsed from
  \<^verbatim>\<open>options { a; };\<close> has, after \<^verbatim>\<open>ReplaceHead\<close> with two spaces, a \<open>HeadRaw\<close> that is not empty,
  \<open>Modified\<close> and \<open>HasBlock\<close>, and the keyword \<open>options\<close>. The code writes it with the head
  \<open>options\<close>; the format of claim C5, with \<open>spec_head\<close>, has the empty trimmed head there.
\<close>

theorem C5_counterexample:
  "Parse (\<lambda>s. s) ''options { a; };'' =
     Some (Inr \<lparr>Nodes = [StmtNode (Stmt ''options { a; };'' 0 15 ''options'' ''options '' True
                   ''{ '' [StmtNode (Stmt ''a;'' 10 12 ''a'' ''a'' False [] [] [] [] False),
                          RawNode (Raw '' '' 12 13)] ''}'' [] False)],
               file_src = ''options { a; };'', file_path = []\<rparr>)
   \<and> ReplaceHead (Stmt ''options { a; };'' 0 15 ''options'' ''options '' True
                   ''{ '' [StmtNode (Stmt ''a;'' 10 12 ''a'' ''a'' False [] [] [] [] False),
                          RawNode (Raw '' '' 12 13)] ''}'' [] False) ''  ''
       = Stmt ''options { a; };'' 0 15 ''options'' ''  '' True
                   ''{ '' [StmtNode (Stmt ''a;'' 10 12 ''a'' ''a'' False [] [] [] [] False),
                          RawNode (Raw '' '' 12 13)] ''}'' [] True
   \<and> Stmt_writeTo (Stmt ''options { a; };'' 0 15 ''options'' ''  '' True
                   ''{ '' [StmtNode (Stmt ''a;'' 10 12 ''a'' ''a'' False [] [] [] [] False),
                          RawNode (Raw '' '' 12 13)] ''}'' [] True) []
       = ''options {\<newline>  a;   \<newline>};''
   \<and> [] @ spec_head (Stmt ''options { a; };'' 0 15 ''options'' ''  '' True
                   ''{ '' [StmtNode (Stmt ''a;'' 10 12 ''a'' ''a'' False [] [] [] [] False),
                          RawNode (Raw '' '' 12 13)] ''}'' [] True) @ '' {''
        @ spec_interior [StmtNode (Stmt ''a;'' 10 12 ''a'' ''a'' False [] [] [] [] False),
                          RawNode (Raw '' '' 12 13)] @ ''};''
       = '' {\<newline>  a;   \<newline>};''
   \<and> Stmt_writeTo (Stmt ''options { a; };'' 0 15 ''options'' ''  '' True
                   ''{ '' [StmtNode (Stmt ''a;'' 10 12 ''a'' ''a'' False [] [] [] [] False),
                          RawNode (Raw '' '' 12 13)] ''}'' [] True) []
       \<noteq> [] @ spec_head (Stmt ''options { a; };'' 0 15 ''options'' ''  '' True
                   ''{ '' [StmtNode (Stmt ''a;'' 10 12 ''a'' ''a'' False [] [] [] [] False),
                          RawNode (Raw '' '' 12 13)] ''}'' [] True) @ '' {''
        @ spec_interior [StmtNode (Stmt ''a;'' 10 12 ''a'' ''a'' False [] [] [] [] False),
                          RawNode (Raw '' '' 12 13)] @ ''};''"
  by code_simp

text \<open>
  Claim C5, amended: a statement with \<open>Modified\<close> and \<open>HasBlock\<close> is written as the right-trimmed
  \<open>HeadRaw\<close>, or the \<open>Keyword\<close> when the right-trimmed \<open>HeadRaw\<close> is empty, then \<open> {\<close>, then the
  interior, then \<open>};\<close>. With an empty body the interior is empty, so the output ends in
  \<open> {};\<close>. With a non-empty body the interior is a newline and every line of every body node's
  output with two spaces before it, and its last byte, the one before the closing brace, is a
  newline.
\<close>

theorem C5_modified_block_format:
  assumes "Modified s" and "HasBlock s"
  shows "Stmt_writeTo s buf = buf @ written_head s @ '' {'' @ spec_interior (Body s) @ ''};''
    \<and> (Body s = [] \<longrightarrow> Stmt_writeTo s buf = buf @ written_head s @ '' {};'')
    \<and> (Body s \<noteq> [] \<longrightarrow>
          (\<exists>t. spec_interior (Body s) = [nl] @ spec_body (Body s) @ t \<and> (t = [] \<or> t = [nl]))
          \<and> last (spec_interior (Body s)) = nl)"
proof -
  have w: "Stmt_writeTo s buf = buf @ written_head s @ '' {'' @ spec_interior (Body s) @ ''};''"
    using assms by (rule Stmt_writeTo_block)
  have e: "Body s = [] \<Longrightarrow> spec_interior (Body s) = []"
    by (simp add: spec_interior_def)
  have n: "last (spec_interior (Body s)) = nl" if "Body s \<noteq> []"
    using that by (simp add: spec_interior_def)
  have t: "\<exists>t. spec_interior (Body s) = [nl] @ spec_body (Body s) @ t \<and> (t = [] \<or> t = [nl])"
    if "Body s \<noteq> []"
    using that by (simp add: spec_interior_def)
  from w e n t show ?thesis by simp
qed

theorem C5_modified_block_format_witness:
  "Stmt_writeTo
     (Stmt [] 0 0 ''kw'' ''h '' True []
        [RawNode (Raw ''a\<newline>\<newline>b\<newline>'' 0 0), RawNode (Raw [] 0 0), RawNode (Raw ''c'' 0 0)] [] [] True)
     ''x''
   = ''xh {\<newline>  a\<newline>  \<newline>  b\<newline>  c\<newline>};''
   \<and> Stmt_writeTo (Stmt [] 0 0 ''kw'' [] True [] [] [] [] True) ''x'' = ''xkw {};''"
proof -
  let ?s = "Stmt [] 0 0 ''kw'' ''h '' True []
        [RawNode (Raw ''a\<newline>\<newline>b\<newline>'' 0 0), RawNode (Raw [] 0 0), RawNode (Raw ''c'' 0 0)] [] [] True"
  let ?e = "Stmt [] 0 0 ''kw'' [] True [] [] [] [] True"
  have "Stmt_writeTo ?s ''x'' = ''x'' @ written_head ?s @ '' {'' @ spec_interior (Body ?s) @ ''};''"
    using C5_modified_block_format [of ?s "''x''"] by simp
  moreover have "''x'' @ written_head ?s @ '' {'' @ spec_interior (Body ?s) @ ''};''
      = ''xh {\<newline>  a\<newline>  \<newline>  b\<newline>  c\<newline>};''"
    by code_simp
  moreover have "Stmt_writeTo ?e ''x'' = ''x'' @ written_head ?e @ '' {};''"
    using C5_modified_block_format [of ?e "''x''"] by (simp add: spec_interior_def)
  moreover have "''x'' @ written_head ?e @ '' {};'' = ''xkw {};''"
    by code_simp
  ultimately show ?thesis by (simp only:)
qed

text \<open>
  Claim C8: \<^verbatim>\<open>AppendToBody\<close> on a statement without a block sets \<open>HasBlock\<close>, the braces \<open> {\<close> and
  \<open>}\<close>, an empty trailing text, the body of the one appended node, and \<open>Modified\<close>. The
  statement is then written as the head, \<open> {\<close>, a newline, the indented output of the node, a
  newline before the closing brace, and \<open>};\<close>. For a node whose output is one line without a
  newline (a simple statement) this is the head followed by \<open> {\<close>, newline, two spaces, the
  output, newline, \<open>};\<close>.
\<close>

theorem C8_append_upgrades_simple_statement:
  assumes "\<not> HasBlock s"
  shows "AppendToBody s n =
           Stmt (RawText s) (stmt_start s) (stmt_end s) (Keyword s) (HeadRaw s) True '' {'' [n]
             ''}'' [] True
    \<and> Stmt_writeTo (AppendToBody s n) buf =
        buf @ written_head s @ '' {'' @ [nl] @ spec_indent (Node_writeTo n []) @
          (if last ([nl] @ spec_indent (Node_writeTo n [])) = nl then [] else [nl]) @ ''};''
    \<and> (Node_writeTo n [] \<noteq> [] \<and> nl \<notin> set (Node_writeTo n []) \<longrightarrow>
          Stmt_writeTo (AppendToBody s n) buf =
            buf @ written_head s @ '' {'' @ [nl] @ ''  '' @ Node_writeTo n [] @ [nl] @ ''};'')"
proof -
  let ?s' = "Stmt (RawText s) (stmt_start s) (stmt_end s) (Keyword s) (HeadRaw s) True '' {'' [n]
             ''}'' [] True"
  have a: "AppendToBody s n = ?s'"
    using assms by (cases s) simp
  have "Stmt_writeTo ?s' buf = buf @ written_head ?s' @ '' {'' @ spec_interior (Body ?s') @ ''};''"
    by (rule Stmt_writeTo_block) simp_all
  then have w: "Stmt_writeTo (AppendToBody s n) buf =
        buf @ written_head s @ '' {'' @ [nl] @ spec_indent (Node_writeTo n []) @
          (if last ([nl] @ spec_indent (Node_writeTo n [])) = nl then [] else [nl]) @ ''};''"
    by (simp add: a written_head_def spec_interior_def spec_body_def)
  have "Stmt_writeTo (AppendToBody s n) buf =
            buf @ written_head s @ '' {'' @ [nl] @ ''  '' @ Node_writeTo n [] @ [nl] @ ''};''"
    if "Node_writeTo n [] \<noteq> []" and "nl \<notin> set (Node_writeTo n [])"
  proof -
    from that have i: "spec_indent (Node_writeTo n []) = ''  '' @ Node_writeTo n []"
      by (rule spec_indent_one_line)
    from that have "last (Node_writeTo n []) \<noteq> nl"
      using last_in_set by metis
    with that(1) show ?thesis by (simp add: w i)
  qed
  with a w show ?thesis by simp
qed

theorem C8_append_upgrades_simple_statement_witness:
  "Parse (\<lambda>s. s) ''recursion no;'' =
     Some (Inr \<lparr>Nodes = [StmtNode (Stmt ''recursion no;'' 0 13 ''recursion'' ''recursion no'' False
                                    [] [] [] [] False)],
               file_src = ''recursion no;'', file_path = []\<rparr>)
   \<and> NewSimpleStmt (\<lambda>s. s) ''allow-query any;'' =
       Some (Stmt [] 0 0 ''allow-query'' ''allow-query any'' False [] [] [] [] True)
   \<and> Stmt_writeTo
        (AppendToBody
           (Stmt ''recursion no;'' 0 13 ''recursion'' ''recursion no'' False [] [] [] [] False)
           (StmtNode (Stmt [] 0 0 ''allow-query'' ''allow-query any'' False [] [] [] [] True))) []
       = ''recursion no {\<newline>  allow-query any;\<newline>};''"
proof -
  let ?s = "Stmt ''recursion no;'' 0 13 ''recursion'' ''recursion no'' False [] [] [] [] False"
  let ?n = "StmtNode (Stmt [] 0 0 ''allow-query'' ''allow-query any'' False [] [] [] [] True)"
  have c: "Node_writeTo ?n [] = ''allow-query any;''" by code_simp
  have pre: "Node_writeTo ?n [] \<noteq> [] \<and> nl \<notin> set (Node_writeTo ?n [])"
    unfolding c by (simp add: nl_def)
  have hb: "\<not> HasBlock ?s" by simp
  from C8_append_upgrades_simple_statement [OF hb, of ?n "[]"] pre
  have "Stmt_writeTo (AppendToBody ?s ?n) [] =
      [] @ written_head ?s @ '' {'' @ [nl] @ ''  '' @ Node_writeTo ?n [] @ [nl] @ ''};''"
    by blast
  moreover have "[] @ written_head ?s @ '' {'' @ [nl] @ ''  '' @ Node_writeTo ?n [] @ [nl] @ ''};''
      = ''recursion no {\<newline>  allow-query any;\<newline>};''"
    by code_simp
  moreover have "Parse (\<lambda>s. s) ''recursion no;'' =
     Some (Inr \<lparr>Nodes = [StmtNode ?s], file_src = ''recursion no;'', file_path = []\<rparr>)"
    by code_simp
  moreover have "NewSimpleStmt (\<lambda>s. s) ''allow-query any;'' =
       Some (Stmt [] 0 0 ''allow-query'' ''allow-query any'' False [] [] [] [] True)"
    by code_simp
  ultimately show ?thesis by (simp only:)
qed



section \<open>Comments and strings\<close>

text \<open>
  The loops of \<^verbatim>\<open>parseRange\<close> and \<^verbatim>\<open>buildStmt\<close> keep the same three flags and move through
  comments and strings in the same way. \<open>scan_step\<close> is that common part, one iteration on the
  context and the index alone, for a scan that ends at \<open>n\<close>; \<open>scan_run\<close> is any number of
  iterations.
\<close>

datatype mode = Normal | LineComment | BlockComment | QuotedString

definition scan_step :: "string \<Rightarrow> nat \<Rightarrow> mode \<times> nat \<Rightarrow> mode \<times> nat" where
  "scan_step s n x =
     (let i = snd x; c = s ! i in
      case fst x of
        LineComment \<Rightarrow> (if c = nl then Normal else LineComment, i + 1)
      | BlockComment \<Rightarrow>
          if c = CHR ''*'' \<and> i + 1 < n \<and> s ! (i + 1) = CHR ''/'' then (Normal, i + 2)
          else (BlockComment, i + 1)
      | QuotedString \<Rightarrow>
          if c = backslash \<and> i + 1 < n then (QuotedString, i + 2)
          else if c = quote then (Normal, i + 1)
          else (QuotedString, i + 1)
      | Normal \<Rightarrow>
          if c = CHR ''/'' \<and> i + 1 < n \<and> s ! (i + 1) = CHR ''*'' then (BlockComment, i + 2)
          else if c = CHR ''/'' \<and> i + 1 < n \<and> s ! (i + 1) = CHR ''/'' then (LineComment, i + 2)
          else if c = CHR ''#'' then (LineComment, i + 1)
          else if c = quote then (QuotedString, i + 1)
          else (Normal, i + 1))"

definition scan_next :: "string \<Rightarrow> nat \<Rightarrow> mode \<times> nat \<Rightarrow> mode \<times> nat \<Rightarrow> bool" where
  "scan_next s n x y \<longleftrightarrow> snd x < n \<and> y = scan_step s n x"

definition scan_run :: "string \<Rightarrow> nat \<Rightarrow> mode \<times> nat \<Rightarrow> mode \<times> nat \<Rightarrow> bool" where
  "scan_run s n = (scan_next s n)\<^sup>*\<^sup>*"

subsection \<open>The keyword of a head\<close>

text \<open>
  The keyword as the specification describes it: \<open>spec_skip_trivia\<close> removes leading white
  space and leading comments of the three styles (a line comment ends after its newline, a
  block comment after its \<^verbatim>\<open>*/\<close>; an unterminated one takes the rest), \<open>spec_token\<close> is the text
  up to the first space, \<open>{\<close> or \<open>;\<close>, and \<open>spec_keyword\<close> strips white space and then the double
  quotes around it and lower-cases it.
\<close>

definition spec_after_line :: "string \<Rightarrow> string" where
  "spec_after_line s = drop 1 (dropWhile (\<lambda>c. c \<noteq> nl) s)"

fun spec_after_block :: "string \<Rightarrow> string" where
  "spec_after_block (a # b # cs) =
     (if a = CHR ''*'' \<and> b = CHR ''/'' then cs else spec_after_block (b # cs))"
| "spec_after_block cs = []"

lemma spec_after_line_length: "length (spec_after_line s) \<le> length s"
  by (simp add: spec_after_line_def) (metis diff_le_self le_trans length_dropWhile_le)

lemma spec_after_block_length: "length (spec_after_block s) \<le> length s"
  by (induction s rule: spec_after_block.induct) auto

function spec_skip_trivia :: "string \<Rightarrow> string" where
  "spec_skip_trivia [] = []"
| "spec_skip_trivia (c # cs) =
     (if unicode_IsSpace c then spec_skip_trivia cs
      else if c = CHR ''#'' then spec_skip_trivia (spec_after_line cs)
      else if c = CHR ''/'' \<and> cs \<noteq> [] \<and> hd cs = CHR ''/''
        then spec_skip_trivia (spec_after_line (tl cs))
      else if c = CHR ''/'' \<and> cs \<noteq> [] \<and> hd cs = CHR ''*''
        then spec_skip_trivia (spec_after_block (tl cs))
      else c # cs)"
  by pat_completeness auto
termination spec_skip_trivia
proof (relation "measure length", goal_cases)
  case 1
  show ?case by simp
next
  case (2 c cs)
  show ?case by simp
next
  case (3 c cs)
  show ?case using spec_after_line_length [of cs] by simp
next
  case (4 c cs)
  have "length (spec_after_line (tl cs)) \<le> length (tl cs)" by (rule spec_after_line_length)
  then show ?case by simp
next
  case (5 c cs)
  have "length (spec_after_block (tl cs)) \<le> length (tl cs)" by (rule spec_after_block_length)
  then show ?case by simp
qed

declare spec_skip_trivia.simps [simp del]

definition spec_token :: "string \<Rightarrow> string" where
  "spec_token s = takeWhile (\<lambda>c. \<not> (isSpace c \<or> c = CHR ''{'' \<or> c = CHR '';'')) s"

definition spec_keyword :: "(string \<Rightarrow> string) \<Rightarrow> string \<Rightarrow> string" where
  "spec_keyword U head =
     strings_ToLower U
       (strings_Trim (strings_TrimSpace (spec_token (spec_skip_trivia head))) [quote])"

text \<open>
  \<open>skip_ok h i\<close>: the first loop of \<^verbatim>\<open>firstIdent\<close>, started at \<open>i\<close>, stays inside \<open>h\<close> and stops
  where \<open>spec_skip_trivia\<close> does. \<open>good_from\<close> is what the scanner needs to know at a position
  so that this holds for every head that ends at a position reached in \<open>Normal\<close> context.
\<close>

definition skip_ok :: "string \<Rightarrow> nat \<Rightarrow> bool" where
  "skip_ok h i \<longleftrightarrow>
     firstIdent_skip h i \<le> length h \<and> drop (firstIdent_skip h i) h = spec_skip_trivia (drop i h)"

definition good_from :: "string \<Rightarrow> mode \<times> nat \<Rightarrow> bool" where
  "good_from h x =
     (case fst x of
        Normal \<Rightarrow> skip_ok h (snd x)
      | LineComment \<Rightarrow>
          firstIdent_lineEnd h (snd x) < length h \<and> skip_ok h (firstIdent_lineEnd h (snd x) + 1)
      | BlockComment \<Rightarrow>
          firstIdent_blockEnd h (snd x) + 1 < length h
          \<and> skip_ok h (firstIdent_blockEnd h (snd x) + 2)
      | QuotedString \<Rightarrow> True)"

lemma lineEnd_step: "i < length h \<Longrightarrow> h ! i \<noteq> nl \<Longrightarrow> firstIdent_lineEnd h i = firstIdent_lineEnd h (i + 1)"
  by (subst firstIdent_lineEnd.simps) simp

lemma lineEnd_stop: "i < length h \<Longrightarrow> h ! i = nl \<Longrightarrow> firstIdent_lineEnd h i = i"
  by (subst firstIdent_lineEnd.simps) simp

lemma lineEnd_end: "length h \<le> i \<Longrightarrow> firstIdent_lineEnd h i = i"
  by (subst firstIdent_lineEnd.simps) simp

lemma after_line_drop: "spec_after_line (drop i h) = drop (firstIdent_lineEnd h i + 1) h"
proof (induction h i rule: firstIdent_lineEnd.induct)
  case (1 s j)
  show ?case
  proof (cases "j < length s")
    case False
    then show ?thesis by (simp add: lineEnd_end spec_after_line_def)
  next
    case True
    then have d: "drop j s = s ! j # drop (j + 1) s"
      by (simp add: Cons_nth_drop_Suc)
    show ?thesis
    proof (cases "s ! j = nl")
      case True
      with \<open>j < length s\<close> show ?thesis
        by (simp add: lineEnd_stop d spec_after_line_def)
    next
      case False
      with \<open>j < length s\<close> "1.IH"
      have "spec_after_line (drop (j + 1) s) = drop (firstIdent_lineEnd s (j + 1) + 1) s"
        by simp
      moreover from False have "spec_after_line (drop j s) = spec_after_line (drop (j + 1) s)"
        by (simp add: d spec_after_line_def)
      ultimately show ?thesis
        using False \<open>j < length s\<close> by (simp add: lineEnd_step)
    qed
  qed
qed

lemma blockEnd_step:
  "i + 1 < length h \<Longrightarrow> \<not> (h ! i = CHR ''*'' \<and> h ! (i + 1) = CHR ''/'') \<Longrightarrow>
     firstIdent_blockEnd h i = firstIdent_blockEnd h (i + 1)"
  by (subst firstIdent_blockEnd.simps) simp

lemma blockEnd_stop:
  "\<not> (i + 1 < length h \<and> \<not> (h ! i = CHR ''*'' \<and> h ! (i + 1) = CHR ''/'')) \<Longrightarrow>
     firstIdent_blockEnd h i = i"
  by (subst firstIdent_blockEnd.simps) auto

lemma after_block_drop:
  "firstIdent_blockEnd h i + 1 < length h \<Longrightarrow>
     spec_after_block (drop i h) = drop (firstIdent_blockEnd h i + 2) h"
proof (induction h i rule: firstIdent_blockEnd.induct)
  case (1 s j)
  have "j \<le> firstIdent_blockEnd s j" by (rule firstIdent_blockEnd_ge)
  with "1.prems" have j: "j + 1 < length s" by simp
  then have d: "drop j s = s ! j # s ! (j + 1) # drop (j + 2) s"
    by (metis Cons_nth_drop_Suc Suc_eq_plus1 add_2_eq_Suc' add_lessD1)
  from j have d1: "drop (j + 1) s = s ! (j + 1) # drop (j + 2) s"
    by (metis Cons_nth_drop_Suc Suc_eq_plus1 add_2_eq_Suc')
  show ?case
  proof (cases "s ! j = CHR ''*'' \<and> s ! (j + 1) = CHR ''/''")
    case True
    then have "firstIdent_blockEnd s j = j" by (simp add: blockEnd_stop)
    with True show ?thesis by (simp add: d)
  next
    case False
    with j have e: "firstIdent_blockEnd s j = firstIdent_blockEnd s (j + 1)"
      by (rule blockEnd_step)
    with "1.prems" have "firstIdent_blockEnd s (j + 1) + 1 < length s" by simp
    with j False "1.IH"
    have "spec_after_block (drop (j + 1) s) = drop (firstIdent_blockEnd s (j + 1) + 2) s"
      by simp
    moreover have "spec_after_block (drop j s) = spec_after_block (drop (j + 1) s)"
    proof -
      from False have "spec_after_block (s ! j # s ! (j + 1) # drop (j + 2) s)
          = spec_after_block (s ! (j + 1) # drop (j + 2) s)"
        by auto
      then show ?thesis by (simp only: d d1)
    qed
    ultimately show ?thesis by (simp add: e)
  qed
qed

lemma not_space_special:
  "\<not> unicode_IsSpace (CHR ''#'')" "\<not> unicode_IsSpace (CHR ''/'')" "\<not> unicode_IsSpace quote"
  by (simp_all add: unicode_IsSpace_def quote_def)

lemma skip_ok_end: "skip_ok h (length h)"
  unfolding skip_ok_def by (subst firstIdent_skip.simps, subst firstIdent_skip.simps) (simp add: spec_skip_trivia.simps)

lemma skip_ok_space:
  assumes "i < length h" "unicode_IsSpace (h ! i)" "skip_ok h (i + 1)"
  shows "skip_ok h i"
proof -
  from assms(1) have d: "drop i h = h ! i # drop (i + 1) h" by (simp add: Cons_nth_drop_Suc)
  from assms(1,2) have "firstIdent_skip h i = firstIdent_skip h (i + 1)"
    by (subst firstIdent_skip.simps) simp
  moreover from assms(2) have "spec_skip_trivia (drop i h) = spec_skip_trivia (drop (i + 1) h)"
    by (simp add: d spec_skip_trivia.simps)
  ultimately show ?thesis using assms(3) by (simp add: skip_ok_def)
qed

lemma skip_ok_hash:
  assumes "i < length h" "h ! i = CHR ''#''" "skip_ok h (firstIdent_lineEnd h (i + 1) + 1)"
  shows "skip_ok h i"
proof -
  from assms(1) have d: "drop i h = h ! i # drop (i + 1) h" by (simp add: Cons_nth_drop_Suc)
  from assms(1,2) have "firstIdent_skip h i = firstIdent_skip h (firstIdent_lineEnd h (i + 1) + 1)"
    by (subst firstIdent_skip.simps) (simp add: not_space_special)
  moreover from assms(2)
  have "spec_skip_trivia (drop i h) = spec_skip_trivia (drop (firstIdent_lineEnd h (i + 1) + 1) h)"
    by (simp add: d spec_skip_trivia.simps not_space_special after_line_drop)
  ultimately show ?thesis using assms(3) by (simp add: skip_ok_def)
qed

lemma skip_ok_slashslash:
  assumes "i + 1 < length h" "h ! i = CHR ''/''" "h ! (i + 1) = CHR ''/''"
    "skip_ok h (firstIdent_lineEnd h (i + 2) + 1)"
  shows "skip_ok h i"
proof -
  from assms(1) have d: "drop i h = h ! i # h ! (i + 1) # drop (i + 2) h"
    by (metis Cons_nth_drop_Suc Suc_eq_plus1 add_2_eq_Suc' add_lessD1)
  from assms(1-3) have "firstIdent_skip h i = firstIdent_skip h (firstIdent_lineEnd h (i + 2) + 1)"
    by (subst firstIdent_skip.simps) (simp add: not_space_special)
  moreover from assms(2,3)
  have "spec_skip_trivia (drop i h) = spec_skip_trivia (drop (firstIdent_lineEnd h (i + 2) + 1) h)"
    by (simp add: d spec_skip_trivia.simps not_space_special after_line_drop)
  ultimately show ?thesis using assms(4) by (simp add: skip_ok_def)
qed

lemma skip_ok_slashstar:
  assumes "i + 1 < length h" "h ! i = CHR ''/''" "h ! (i + 1) = CHR ''*''"
    "firstIdent_blockEnd h (i + 2) + 1 < length h"
    "skip_ok h (firstIdent_blockEnd h (i + 2) + 2)"
  shows "skip_ok h i"
proof -
  from assms(1) have d: "drop i h = h ! i # h ! (i + 1) # drop (i + 2) h"
    by (metis Cons_nth_drop_Suc Suc_eq_plus1 add_2_eq_Suc' add_lessD1)
  from assms(1-4) have "firstIdent_skip h i = firstIdent_skip h (firstIdent_blockEnd h (i + 2) + 2)"
    by (subst firstIdent_skip.simps) (simp add: not_space_special Let_def)
  moreover from assms(2,3,4)
  have "spec_skip_trivia (drop i h) = spec_skip_trivia (drop (firstIdent_blockEnd h (i + 2) + 2) h)"
    by (simp add: d spec_skip_trivia.simps not_space_special after_block_drop)
  ultimately show ?thesis using assms(5) by (simp add: skip_ok_def)
qed

lemma skip_ok_stop:
  assumes "i < length h" "\<not> unicode_IsSpace (h ! i)" "h ! i \<noteq> CHR ''#''"
    "\<not> (h ! i = CHR ''/'' \<and> i + 1 < length h \<and> (h ! (i + 1) = CHR ''/'' \<or> h ! (i + 1) = CHR ''*''))"
  shows "skip_ok h i"
proof -
  from assms(1) have d: "drop i h = h ! i # drop (i + 1) h" by (simp add: Cons_nth_drop_Suc)
  from assms have s: "firstIdent_skip h i = i"
    by (subst firstIdent_skip.simps) auto
  have n: "drop (i + 1) h \<noteq> [] \<Longrightarrow> hd (drop (i + 1) h) = h ! (i + 1) \<and> i + 1 < length h"
    by (simp add: hd_drop_conv_nth)
  from assms(2-4) n have "spec_skip_trivia (h ! i # drop (i + 1) h) = h ! i # drop (i + 1) h"
    by (subst spec_skip_trivia.simps) auto
  with s assms(1) show ?thesis by (simp add: skip_ok_def d)
qed

lemma scan_step_snd: "snd x < snd (scan_step s n x)"
  by (cases "fst x") (simp_all add: scan_step_def Let_def)

lemma scan_run_refl: "scan_run s n x x"
  by (simp add: scan_run_def)

lemma scan_run_step: "scan_run s n x y \<Longrightarrow> snd y < n \<Longrightarrow> scan_run s n x (scan_step s n y)"
  unfolding scan_run_def by (rule rtranclp.rtrancl_into_rtrancl) (simp_all add: scan_next_def)

lemma scan_run_mono: "scan_run s n x y \<Longrightarrow> snd x \<le> snd y"
  unfolding scan_run_def
proof (induction rule: rtranclp_induct)
  case base
  show ?case by simp
next
  case (step y z)
  from step.hyps(2) have "snd y < snd z"
    by (simp add: scan_next_def scan_step_snd)
  with step.IH show ?case by simp
qed

lemma scan_run_same: "scan_run s n x y \<Longrightarrow> snd y \<le> snd x \<Longrightarrow> y = x"
  unfolding scan_run_def
proof (induction rule: rtranclp_induct)
  case base
  show ?case by simp
next
  case (step y z)
  from step.hyps(2) have "snd y < snd z"
    by (simp add: scan_next_def scan_step_snd)
  moreover from step.hyps(1) have "snd x \<le> snd y"
    using scan_run_mono [of s n x y] by (simp add: scan_run_def)
  ultimately show ?case using step.prems by simp
qed

lemma good_from_back:
  assumes k: "k \<le> n" and n: "n \<le> length s" and i: "i < n"
    and le: "snd (scan_step s n (m, i)) \<le> k"
    and g: "good_from (take k s) (scan_step s n (m, i))"
  shows "good_from (take k s) (m, i)"
proof -
  let ?h = "take k s"
  have "i < snd (scan_step s n (m, i))" using scan_step_snd [of "(m, i)" s n] by simp
  with le have ik: "i < k" by simp
  from k n have len: "length ?h = k" by simp
  from ik have hi: "?h ! i = s ! i" by simp
  have hi1: "i + 1 < k \<Longrightarrow> ?h ! (i + 1) = s ! (i + 1)" by simp
  from ik len have il: "i < length ?h" by simp
  from k n have kl: "k \<le> length s" by simp
  show ?thesis
  proof (cases m)
    case QuotedString
    then show ?thesis by (simp add: good_from_def)
  next
    case LineComment
    show ?thesis
    proof (cases "s ! i = nl")
      case True
      with LineComment g have "skip_ok ?h (i + 1)"
        by (simp add: scan_step_def good_from_def)
      moreover have "firstIdent_lineEnd ?h i = i"
        by (rule lineEnd_stop [OF il]) (simp add: hi True)
      ultimately show ?thesis using LineComment ik kl by (simp add: good_from_def)
    next
      case False
      with LineComment g
      have "firstIdent_lineEnd ?h (i + 1) < length ?h
          \<and> skip_ok ?h (firstIdent_lineEnd ?h (i + 1) + 1)"
        by (simp add: scan_step_def good_from_def)
      moreover have "firstIdent_lineEnd ?h i = firstIdent_lineEnd ?h (i + 1)"
        by (rule lineEnd_step [OF il]) (simp add: hi False)
      ultimately show ?thesis using LineComment by (simp add: good_from_def)
    qed
  next
    case BlockComment
    show ?thesis
    proof (cases "s ! i = CHR ''*'' \<and> i + 1 < n \<and> s ! (i + 1) = CHR ''/''")
      case True
      with BlockComment have st: "scan_step s n (m, i) = (Normal, i + 2)"
        by (simp add: scan_step_def)
      with le have i2: "i + 2 \<le> k" by simp
      from st g have "skip_ok ?h (i + 2)" by (simp add: good_from_def)
      moreover have "firstIdent_blockEnd ?h i = i"
        by (rule blockEnd_stop) (use True i2 in simp)
      ultimately show ?thesis using BlockComment i2 kl by (simp add: good_from_def)
    next
      case False
      with BlockComment have st: "scan_step s n (m, i) = (BlockComment, i + 1)"
        by (auto simp add: scan_step_def)
      with g have f: "firstIdent_blockEnd ?h (i + 1) + 1 < length ?h"
        and o: "skip_ok ?h (firstIdent_blockEnd ?h (i + 1) + 2)"
        by (simp_all add: good_from_def)
      have "i + 1 \<le> firstIdent_blockEnd ?h (i + 1)" by (rule firstIdent_blockEnd_ge)
      with f len have i2: "i + 2 < k" by simp
      with k have "i + 1 < n" by simp
      with False i2 have nm: "\<not> (?h ! i = CHR ''*'' \<and> ?h ! (i + 1) = CHR ''/'')"
        by (simp add: hi)
      from i2 len have "i + 1 < length ?h" by simp
      then have "firstIdent_blockEnd ?h i = firstIdent_blockEnd ?h (i + 1)"
        using nm by (rule blockEnd_step)
      with f o show ?thesis using BlockComment by (simp add: good_from_def)
    qed
  next
    case Normal
    show ?thesis
    proof (cases "s ! i = CHR ''/'' \<and> i + 1 < n \<and> (s ! (i + 1) = CHR ''*'' \<or> s ! (i + 1) = CHR ''/'')")
      case True
      show ?thesis
      proof (cases "s ! (i + 1) = CHR ''*''")
        case star: True
        with True Normal have st: "scan_step s n (m, i) = (BlockComment, i + 2)"
          by (simp add: scan_step_def)
        with le have i2: "i + 2 \<le> k" by simp
        from st g have "firstIdent_blockEnd ?h (i + 2) + 1 < length ?h"
          and "skip_ok ?h (firstIdent_blockEnd ?h (i + 2) + 2)"
          by (simp_all add: good_from_def)
        moreover from i2 len have "i + 1 < length ?h" by simp
        moreover from True have "?h ! i = CHR ''/''" by (simp add: hi)
        moreover from star i2 have "?h ! (i + 1) = CHR ''*''" by simp
        ultimately have "skip_ok ?h i" by (rule skip_ok_slashstar [rotated 3])
        then show ?thesis using Normal by (simp add: good_from_def)
      next
        case False
        with True have sl: "s ! (i + 1) = CHR ''/''" by simp
        with True False Normal have st: "scan_step s n (m, i) = (LineComment, i + 2)"
          by (simp add: scan_step_def)
        with le have i2: "i + 2 \<le> k" by simp
        from st g have "skip_ok ?h (firstIdent_lineEnd ?h (i + 2) + 1)"
          by (simp_all add: good_from_def)
        moreover from i2 len have "i + 1 < length ?h" by simp
        moreover from True have "?h ! i = CHR ''/''" by (simp add: hi)
        moreover from sl i2 have "?h ! (i + 1) = CHR ''/''" by simp
        ultimately have "skip_ok ?h i" by (rule skip_ok_slashslash [rotated 3])
        then show ?thesis using Normal by (simp add: good_from_def)
      qed
    next
      case nocomment: False
      show ?thesis
      proof (cases "s ! i = CHR ''#''")
        case True
        with nocomment Normal have st: "scan_step s n (m, i) = (LineComment, i + 1)"
          by (auto simp add: scan_step_def)
        from st g have "skip_ok ?h (firstIdent_lineEnd ?h (i + 1) + 1)"
          by (simp_all add: good_from_def)
        moreover from ik len have "i < length ?h" by simp
        moreover from True have "?h ! i = CHR ''#''" by (simp add: hi)
        ultimately have "skip_ok ?h i" by (rule skip_ok_hash [rotated 2])
        then show ?thesis using Normal by (simp add: good_from_def)
      next
        case nohash: False
        show ?thesis
        proof (cases "unicode_IsSpace (s ! i)")
          case True
          then have "s ! i \<noteq> quote" using not_space_special by auto
          with nocomment nohash Normal have st: "scan_step s n (m, i) = (Normal, i + 1)"
            by (auto simp add: scan_step_def)
          from st g have "skip_ok ?h (i + 1)" by (simp add: good_from_def)
          moreover from ik len have "i < length ?h" by simp
          moreover from True have "unicode_IsSpace (?h ! i)" by (simp add: hi)
          ultimately have "skip_ok ?h i" by (rule skip_ok_space [rotated 2])
          then show ?thesis using Normal by (simp add: good_from_def)
        next
          case False
          from k have kn: "i + 1 < k \<Longrightarrow> i + 1 < n" by simp
          from ik len have "i < length ?h" by simp
          moreover from False have "\<not> unicode_IsSpace (?h ! i)" by (simp add: hi)
          moreover from nohash have "?h ! i \<noteq> CHR ''#''" by (simp add: hi)
          moreover from nocomment kn
          have "\<not> (?h ! i = CHR ''/'' \<and> i + 1 < length ?h
                  \<and> (?h ! (i + 1) = CHR ''/'' \<or> ?h ! (i + 1) = CHR ''*''))"
            unfolding len hi by (auto simp: hi1)
          ultimately have "skip_ok ?h i" by (rule skip_ok_stop)
          then show ?thesis using Normal by (simp add: good_from_def)
        qed
      qed
    qed
  qed
qed

lemma good_from_run:
  assumes k: "k \<le> n" and n: "n \<le> length s"
  shows "scan_run s n x (Normal, k) \<Longrightarrow> good_from (take k s) x"
  unfolding scan_run_def
proof (induction rule: converse_rtranclp_induct)
  case base
  from k n have "length (take k s) = k" by simp
  with skip_ok_end [of "take k s"] show ?case by (simp add: good_from_def)
next
  case (step x y)
  from step.hyps(1) have i: "snd x < n" and y: "y = scan_step s n (fst x, snd x)"
    by (simp_all add: scan_next_def)
  from step.hyps(2) have "snd y \<le> k"
    using scan_run_mono [of s n y "(Normal, k)"] by (simp add: scan_run_def)
  with y have le: "snd (scan_step s n (fst x, snd x)) \<le> k" by simp
  from step.IH y have g: "good_from (take k s) (scan_step s n (fst x, snd x))" by simp
  from k n i le g have "good_from (take k s) (fst x, snd x)" by (rule good_from_back)
  then show ?case by simp
qed

lemma head_skip_ok:
  "scan_run s n (Normal, 0) (Normal, k) \<Longrightarrow> k \<le> n \<Longrightarrow> n \<le> length s \<Longrightarrow> skip_ok (take k s) 0"
  using good_from_run [of k n s "(Normal, 0)"] by (simp add: good_from_def)

lemma firstIdent_collect_takeWhile:
  "p \<le> length h \<Longrightarrow>
     firstIdent_collect h p
       = p + length (takeWhile (\<lambda>c. \<not> (isSpace c \<or> c = CHR ''{'' \<or> c = CHR '';'')) (drop p h))"
proof (induction h p rule: firstIdent_collect.induct)
  case (1 s i)
  show ?case
  proof (cases "i < length s")
    case False
    then show ?thesis by (subst firstIdent_collect.simps) simp
  next
    case True
    then have d: "drop i s = s ! i # drop (i + 1) s" by (simp add: Cons_nth_drop_Suc)
    show ?thesis
    proof (cases "isSpace (s ! i) \<or> s ! i = CHR ''{'' \<or> s ! i = CHR '';''")
      case stop: True
      with True show ?thesis by (subst firstIdent_collect.simps) (auto simp: d)
    next
      case False
      with True "1.IH" have "firstIdent_collect s (i + 1)
          = i + 1 + length (takeWhile (\<lambda>c. \<not> (isSpace c \<or> c = CHR ''{'' \<or> c = CHR '';'')) (drop (i + 1) s))"
        by simp
      with True False show ?thesis by (subst firstIdent_collect.simps) (simp add: d)
    qed
  qed
qed

lemma firstIdent_of_skip_ok:
  assumes "skip_ok h 0"
  shows "firstIdent h
    = Some (strings_Trim (strings_TrimSpace (spec_token (spec_skip_trivia h))) [quote])"
proof -
  let ?p = "firstIdent_skip h 0"
  let ?ok = "\<lambda>c. \<not> (isSpace c \<or> c = CHR ''{'' \<or> c = CHR '';'')"
  from assms have p: "?p \<le> length h" and d: "drop ?p h = spec_skip_trivia h"
    by (simp_all add: skip_ok_def)
  from p have c: "firstIdent_collect h ?p = ?p + length (takeWhile ?ok (drop ?p h))"
    by (rule firstIdent_collect_takeWhile)
  have "length (takeWhile ?ok (drop ?p h)) \<le> length (drop ?p h)"
    by (rule length_takeWhile_le)
  with p have "?p + length (takeWhile ?ok (drop ?p h)) \<le> length h" by simp
  then have "slice h ?p (?p + length (takeWhile ?ok (drop ?p h)))
      = Some (take (length (takeWhile ?ok (drop ?p h))) (drop ?p h))"
    by (simp add: slice_def)
  also have "take (length (takeWhile ?ok (drop ?p h))) (drop ?p h) = takeWhile ?ok (drop ?p h)"
    by (rule takeWhile_eq_take [symmetric])
  finally have "slice h ?p (firstIdent_collect h ?p) = Some (spec_token (spec_skip_trivia h))"
    by (simp add: c d spec_token_def)
  then show ?thesis by (simp add: firstIdent_def Let_def)
qed

section \<open>The scan of buildStmt\<close>

text \<open>
  The context of a state of the loop, the states the loop reaches from its initial state, and
  what holds in all of them: the flags exclude each other, the position is one the scanner
  reaches, the depth is not negative, and a recorded brace lies inside the segment.
\<close>

definition bs_mode :: "bs_state \<Rightarrow> mode" where
  "bs_mode st =
     (if bs_inLine st then LineComment else if bs_inSlashStar st then BlockComment
      else if bs_inString st then QuotedString else Normal)"

definition bs_excl :: "bs_state \<Rightarrow> bool" where
  "bs_excl st \<longleftrightarrow>
     \<not> (bs_inLine st \<and> bs_inSlashStar st) \<and> \<not> (bs_inLine st \<and> bs_inString st)
     \<and> \<not> (bs_inSlashStar st \<and> bs_inString st)"

definition bs_init :: bs_state where
  "bs_init = \<lparr>bs_i = 0, bs_depth = 0, bs_inSlashStar = False, bs_inLine = False,
              bs_inString = False, bs_braceOpen = - 1, bs_braceClose = - 1\<rparr>"

inductive buildStmt_reach :: "string \<Rightarrow> bs_state \<Rightarrow> bool" for seg :: string where
  init: "buildStmt_reach seg bs_init"
| step: "buildStmt_reach seg st \<Longrightarrow> bs_i st < length seg \<Longrightarrow>
           buildStmt_reach seg (buildStmt_body seg st)"

lemma buildStmt_body_comment:
  assumes "bs_inLine st \<or> bs_inSlashStar st \<or> bs_inString st"
  shows "bs_depth (buildStmt_body seg st) = bs_depth st
    \<and> bs_braceOpen (buildStmt_body seg st) = bs_braceOpen st
    \<and> bs_braceClose (buildStmt_body seg st) = bs_braceClose st"
proof (cases "bs_inLine st")
  case True
  then show ?thesis by (simp add: buildStmt_body_def Let_def)
next
  case nl: False
  show ?thesis
  proof (cases "bs_inSlashStar st")
    case True
    with nl show ?thesis by (simp add: buildStmt_body_def Let_def)
  next
    case False
    with nl assms show ?thesis by (simp add: buildStmt_body_def Let_def)
  qed
qed

lemma buildStmt_body_scan:
  assumes "bs_excl st"
  shows "(bs_mode (buildStmt_body seg st), bs_i (buildStmt_body seg st))
           = scan_step seg (length seg) (bs_mode st, bs_i st)
         \<and> bs_excl (buildStmt_body seg st)"
proof (cases "bs_inLine st")
  case True
  with assms show ?thesis
    by (simp add: buildStmt_body_def Let_def bs_mode_def bs_excl_def scan_step_def)
next
  case nl: False
  show ?thesis
  proof (cases "bs_inSlashStar st")
    case True
    with nl assms show ?thesis
      by (simp add: buildStmt_body_def Let_def bs_mode_def bs_excl_def scan_step_def)
  next
    case ns: False
    show ?thesis
    proof (cases "bs_inString st")
      case True
      with nl ns assms show ?thesis
        by (simp add: buildStmt_body_def Let_def bs_mode_def bs_excl_def scan_step_def)
    next
      case False
      with nl ns assms show ?thesis
        by (simp add: buildStmt_body_def Let_def bs_mode_def bs_excl_def scan_step_def)
    qed
  qed
qed


lemma buildStmt_body_normal:
  assumes "\<not> bs_inLine st" "\<not> bs_inSlashStar st" "\<not> bs_inString st"
  shows "0 \<le> bs_depth st \<longrightarrow> 0 \<le> bs_depth (buildStmt_body seg st)"
    and "bs_braceOpen (buildStmt_body seg st) = bs_braceOpen st
         \<or> bs_braceOpen (buildStmt_body seg st) = int (bs_i st)"
    and "bs_braceClose (buildStmt_body seg st) = bs_braceClose st
         \<or> bs_braceClose (buildStmt_body seg st) = int (bs_i st) \<and> seg ! bs_i st = CHR ''}''"
    and "seg ! bs_i st = CHR ''}'' \<and> bs_depth st = 0 \<longrightarrow> bs_depth (buildStmt_body seg st) = 0"
  using assms by (simp_all add: buildStmt_body_def Let_def)

definition bs_inv :: "string \<Rightarrow> bs_state \<Rightarrow> bool" where
  "bs_inv seg st \<longleftrightarrow>
     bs_excl st \<and> scan_run seg (length seg) (Normal, 0) (bs_mode st, bs_i st)
     \<and> 0 \<le> bs_depth st
     \<and> (0 \<le> bs_braceOpen st \<longrightarrow>
          nat (bs_braceOpen st) < length seg
          \<and> scan_run seg (length seg) (Normal, 0) (Normal, nat (bs_braceOpen st)))
     \<and> (0 \<le> bs_braceClose st \<longrightarrow>
          nat (bs_braceClose st) < length seg \<and> seg ! nat (bs_braceClose st) = CHR ''}'')"

lemma bs_inv_init: "bs_inv seg bs_init"
  by (simp add: bs_inv_def bs_init_def bs_excl_def bs_mode_def scan_run_refl)

lemma bs_inv_step:
  assumes inv: "bs_inv seg st" and i: "bs_i st < length seg"
  shows "bs_inv seg (buildStmt_body seg st)"
proof -
  let ?st' = "buildStmt_body seg st"
  from inv have ex: "bs_excl st"
    and run: "scan_run seg (length seg) (Normal, 0) (bs_mode st, bs_i st)"
    and d: "0 \<le> bs_depth st"
    and bo: "0 \<le> bs_braceOpen st \<Longrightarrow> nat (bs_braceOpen st) < length seg
          \<and> scan_run seg (length seg) (Normal, 0) (Normal, nat (bs_braceOpen st))"
    and bc: "0 \<le> bs_braceClose st \<Longrightarrow>
          nat (bs_braceClose st) < length seg \<and> seg ! nat (bs_braceClose st) = CHR ''}''"
    by (simp_all add: bs_inv_def)
  from ex have sc: "(bs_mode ?st', bs_i ?st') = scan_step seg (length seg) (bs_mode st, bs_i st)"
    and ex': "bs_excl ?st'"
    using buildStmt_body_scan [of st seg] by simp_all
  from run i have run': "scan_run seg (length seg) (Normal, 0) (bs_mode ?st', bs_i ?st')"
    unfolding sc by (rule scan_run_step [where y = "(bs_mode st, bs_i st)", simplified])
  show ?thesis
  proof (cases "bs_inLine st \<or> bs_inSlashStar st \<or> bs_inString st")
    case True
    then have "bs_depth ?st' = bs_depth st" "bs_braceOpen ?st' = bs_braceOpen st"
      "bs_braceClose ?st' = bs_braceClose st"
      using buildStmt_body_comment [of st seg] by simp_all
    with ex' run' d bo bc show ?thesis by (simp add: bs_inv_def)
  next
    case False
    then have f: "\<not> bs_inLine st" "\<not> bs_inSlashStar st" "\<not> bs_inString st" by simp_all
    then have m: "bs_mode st = Normal" by (simp add: bs_mode_def)
    from d have d': "0 \<le> bs_depth ?st'"
      using buildStmt_body_normal(1) [OF f, of seg] by simp
    have bo': "nat (bs_braceOpen ?st') < length seg
          \<and> scan_run seg (length seg) (Normal, 0) (Normal, nat (bs_braceOpen ?st'))"
      if "0 \<le> bs_braceOpen ?st'"
      using buildStmt_body_normal(2) [OF f, of seg]
    proof
      assume "bs_braceOpen ?st' = bs_braceOpen st"
      with that bo show ?thesis by simp
    next
      assume "bs_braceOpen ?st' = int (bs_i st)"
      with i run m show ?thesis by simp
    qed
    have bc': "nat (bs_braceClose ?st') < length seg \<and> seg ! nat (bs_braceClose ?st') = CHR ''}''"
      if "0 \<le> bs_braceClose ?st'"
      using buildStmt_body_normal(3) [OF f, of seg]
    proof
      assume "bs_braceClose ?st' = bs_braceClose st"
      with that bc show ?thesis by simp
    next
      assume "bs_braceClose ?st' = int (bs_i st) \<and> seg ! bs_i st = CHR ''}''"
      with i show ?thesis by simp
    qed
    from ex' run' d' bo' bc' show ?thesis by (simp add: bs_inv_def)
  qed
qed

lemma buildStmt_reach_inv: "buildStmt_reach seg st \<Longrightarrow> bs_inv seg st"
  by (induction rule: buildStmt_reach.induct) (simp_all add: bs_inv_init bs_inv_step)

lemma buildStmt_loop_reach:
  "buildStmt_reach seg st \<Longrightarrow> buildStmt_reach seg (buildStmt_loop seg st)"
proof (induction seg st rule: buildStmt_loop.induct)
  case (1 seg st)
  show ?case
  proof (cases "bs_i st < length seg")
    case True
    with "1.prems" have "buildStmt_reach seg (buildStmt_body seg st)"
      by (rule buildStmt_reach.step)
    with True "1.IH" have "buildStmt_reach seg (buildStmt_loop seg (buildStmt_body seg st))"
      by simp
    with True show ?thesis by (subst buildStmt_loop.simps) simp
  next
    case False
    with "1.prems" show ?thesis by (subst buildStmt_loop.simps) simp
  qed
qed

lemma buildStmt_loop_inv: "bs_inv seg (buildStmt_loop seg bs_init)"
  by (rule buildStmt_reach_inv, rule buildStmt_loop_reach, rule buildStmt_reach.init)

section \<open>The scan of parseRange\<close>

text \<open>
  The same for the loop of \<^verbatim>\<open>parseRange\<close>. \<open>pr_boundary\<close> is the test of the branch that ends a
  statement: a \<open>;\<close> in \<open>Normal\<close> context at depth 0. \<open>parseRange_reach\<close> are the states the loop
  reaches from its initial state at \<open>start\<close>.
\<close>

definition pr_mode :: "pr_state \<Rightarrow> mode" where
  "pr_mode st =
     (if pr_inLine st then LineComment else if pr_inSlashStar st then BlockComment
      else if pr_inString st then QuotedString else Normal)"

definition pr_excl :: "pr_state \<Rightarrow> bool" where
  "pr_excl st \<longleftrightarrow>
     \<not> (pr_inLine st \<and> pr_inSlashStar st) \<and> \<not> (pr_inLine st \<and> pr_inString st)
     \<and> \<not> (pr_inSlashStar st \<and> pr_inString st)"

definition pr_init :: "nat \<Rightarrow> pr_state" where
  "pr_init start = \<lparr>pr_i = start, pr_last = start, pr_depth = 0, pr_inSlashStar = False,
              pr_inLine = False, pr_inString = False, pr_nodes = []\<rparr>"

definition pr_boundary :: "string \<Rightarrow> pr_state \<Rightarrow> bool" where
  "pr_boundary src st \<longleftrightarrow>
     \<not> pr_inLine st \<and> \<not> pr_inSlashStar st \<and> \<not> pr_inString st
     \<and> src ! pr_i st = CHR '';'' \<and> pr_depth st = 0"

inductive parseRange_reach :: "(string \<Rightarrow> string) \<Rightarrow> string \<Rightarrow> nat \<Rightarrow> nat \<Rightarrow> pr_state \<Rightarrow> bool"
  for U :: "string \<Rightarrow> string" and src :: string and start :: nat and end' :: nat where
  init: "parseRange_reach U src start end' (pr_init start)"
| step: "parseRange_reach U src start end' st \<Longrightarrow> pr_i st < end' \<Longrightarrow>
           parseRange_body U src end' st = Some st' \<Longrightarrow> parseRange_reach U src start end' st'"


lemma special_chars:
  "CHR '';'' \<noteq> CHR ''/''" "CHR '';'' \<noteq> CHR ''#''" "CHR '';'' \<noteq> quote" "CHR '';'' \<noteq> CHR ''{''"
  "CHR '';'' \<noteq> CHR ''}''" "CHR '';'' \<noteq> nl" "CHR '';'' \<noteq> backslash" "CHR '';'' \<noteq> CHR ''*''"
  by (simp_all add: quote_def nl_def backslash_def)

lemma backslash_quote: "backslash \<noteq> quote" "quote \<noteq> backslash"
  by (simp_all add: backslash_def quote_def)

lemma parseRange_body_scan:
  assumes ex: "pr_excl st" and i: "pr_i st < end'" and e: "end' \<le> length src"
    and nb: "\<not> pr_boundary src st"
  shows "\<exists>st'. parseRange_body U src end' st = Some st'
      \<and> (pr_mode st', pr_i st') = scan_step src end' (pr_mode st, pr_i st)
      \<and> pr_excl st' \<and> pr_last st' = pr_last st \<and> pr_nodes st' = pr_nodes st
      \<and> (0 \<le> pr_depth st \<longrightarrow> 0 \<le> pr_depth st')"
proof -
  from i e have il: "\<not> length src \<le> pr_i st" by simp
  from e have il1: "pr_i st + 1 < end' \<Longrightarrow> \<not> length src \<le> pr_i st + 1" by simp
  show ?thesis
  proof (cases "pr_inLine st")
    case True
    with ex il show ?thesis
      by (simp add: parseRange_body.simps Let_def pr_mode_def pr_excl_def scan_step_def)
  next
    case nl: False
    show ?thesis
    proof (cases "pr_inSlashStar st")
      case True
      with nl ex il il1 show ?thesis
        by (simp add: parseRange_body.simps Let_def pr_mode_def pr_excl_def scan_step_def)
    next
      case ns: False
      show ?thesis
      proof (cases "pr_inString st")
        case True
        with nl ns ex il show ?thesis
          by (simp add: parseRange_body.simps Let_def pr_mode_def pr_excl_def scan_step_def
              backslash_quote)
      next
        case nq: False
        show ?thesis
        proof (cases "src ! pr_i st = CHR '';''")
          case True
          with nl ns nq nb have "pr_depth st \<noteq> 0" by (simp add: pr_boundary_def)
          with True nl ns nq ex il show ?thesis
            by (simp add: parseRange_body.simps Let_def pr_mode_def pr_excl_def scan_step_def
                special_chars)
        next
          case False
          with nl ns nq ex il il1 show ?thesis
            by (simp add: parseRange_body.simps Let_def pr_mode_def pr_excl_def scan_step_def)
        qed
      qed
    qed
  qed
qed

lemma parseRange_body_boundary:
  assumes "pr_boundary src st" and "pr_i st < length src"
  shows "parseRange_body U src end' st =
     (case findStmtStart src (pr_last st) (pr_i st) of
        None \<Rightarrow> None
      | Some stmtStart \<Rightarrow>
          (case (if pr_last st < stmtStart then
                   (case slice src (pr_last st) stmtStart of
                      None \<Rightarrow> None
                    | Some text \<Rightarrow>
                        Some (pr_nodes st @ [RawNode (Raw text (pr_last st) stmtStart)]))
                 else Some (pr_nodes st)) of
             None \<Rightarrow> None
           | Some nodes \<Rightarrow>
               (case slice src stmtStart (pr_i st + 1) of
                  None \<Rightarrow> None
                | Some seg \<Rightarrow>
                    (case buildStmt U src seg stmtStart of
                       None \<Rightarrow> None
                     | Some (Inl err) \<Rightarrow>
                         Some (st\<lparr>pr_nodes := nodes @ [RawNode (Raw seg stmtStart (pr_i st + 1))],
                                  pr_last := pr_i st + 1, pr_i := pr_i st + 1\<rparr>)
                     | Some (Inr s) \<Rightarrow>
                         Some (st\<lparr>pr_nodes := nodes @ [StmtNode s],
                                  pr_last := pr_i st + 1, pr_i := pr_i st + 1\<rparr>)))))"
  using assms
  by (simp add: parseRange_body.simps [of U src end' st] Let_def pr_boundary_def special_chars)

text \<open>\<open>sub src a b\<close> is \<^verbatim>\<open>src[a:b]\<close> where the slice is in range.\<close>

definition sub :: "string \<Rightarrow> nat \<Rightarrow> nat \<Rightarrow> string" where
  "sub src a b = take (b - a) (drop a src)"

lemma slice_sub: "a \<le> b \<Longrightarrow> b \<le> length src \<Longrightarrow> slice src a b = Some (sub src a b)"
  by (simp add: slice_def sub_def)

lemma sub_append:
  "a \<le> b \<Longrightarrow> b \<le> c \<Longrightarrow> sub src a b @ sub src b c = sub src a c"
proof -
  assume ab: "a \<le> b" and bc: "b \<le> c"
  have "take (c - a) (drop a src)
      = take (b - a) (drop a src) @ take (c - a - (b - a)) (drop (b - a) (drop a src))"
    using ab bc by (metis add_diff_cancel_left' le_add_diff_inverse diff_le_mono take_add)
  with ab bc show ?thesis by (simp add: sub_def)
qed

lemma sub_same: "sub src a a = []"
  by (simp add: sub_def)

lemma sub_length: "b \<le> length src \<Longrightarrow> length (sub src a b) = b - a"
  by (simp add: sub_def)

lemma sub_nth: "a + j < b \<Longrightarrow> b \<le> length src \<Longrightarrow> sub src a b ! j = src ! (a + j)"
  by (simp add: sub_def)

text \<open>The start of the next statement, as a predicate.\<close>

definition stmt_start_at :: "string \<Rightarrow> nat \<Rightarrow> nat \<Rightarrow> nat \<Rightarrow> bool" where
  "stmt_start_at src l i a \<longleftrightarrow>
     l \<le> a \<and> a \<le> i \<and> (\<forall>j. l \<le> j \<and> j < a \<longrightarrow> isSpace (src ! j))
     \<and> (a < i \<longrightarrow> \<not> isSpace (src ! a))"

lemma findStmtStart_unique:
  "stmt_start_at src l i a \<Longrightarrow> i \<le> length src \<Longrightarrow> findStmtStart src l i = Some a"
proof (induction src l i rule: findStmtStart.induct)
  case (1 src l pos)
  from "1.prems"(1) have la: "l \<le> a" and ap: "a \<le> pos"
    and sp: "\<forall>j. l \<le> j \<and> j < a \<longrightarrow> isSpace (src ! j)"
    and ns: "a < pos \<longrightarrow> \<not> isSpace (src ! a)"
    by (simp_all add: stmt_start_at_def)
  show ?case
  proof (cases "l < a")
    case True
    with sp have s: "isSpace (src ! l)" by simp
    from True ap "1.prems"(2) have l: "l < pos" "\<not> length src \<le> l" by simp_all
    from True ap sp ns have "stmt_start_at src (l + 1) pos a"
      by (simp add: stmt_start_at_def)
    with l s "1.IH" "1.prems"(2) have "findStmtStart src (l + 1) pos = Some a" by simp
    with l s show ?thesis by (subst findStmtStart.simps) simp
  next
    case False
    with la have "l = a" by simp
    with ap ns "1.prems"(2) show ?thesis by (subst findStmtStart.simps) auto
  qed
qed

lemma isSpace_not_special:
  "isSpace c \<Longrightarrow> c \<noteq> CHR ''/'' \<and> c \<noteq> CHR ''#'' \<and> c \<noteq> quote"
  by (auto simp: isSpace_def quote_def)

lemma scan_step_space: "isSpace (s ! i) \<Longrightarrow> scan_step s n (Normal, i) = (Normal, i + 1)"
  using isSpace_not_special [of "s ! i"] by (simp add: scan_step_def)

lemma scan_step_le: "snd x < n \<Longrightarrow> snd (scan_step s n x) \<le> n"
  by (cases "fst x") (auto simp add: scan_step_def Let_def)

definition pr_inv :: "string \<Rightarrow> nat \<Rightarrow> pr_state \<Rightarrow> bool" where
  "pr_inv src end' st \<longleftrightarrow>
     pr_excl st \<and> pr_i st \<le> end'
     \<and> (\<exists>a. stmt_start_at src (pr_last st) (pr_i st) a
            \<and> scan_run src end' (Normal, a) (pr_mode st, pr_i st))"

lemma pr_inv_fresh:
  assumes "pr_excl st" "pr_mode st = Normal" "pr_last st = pr_i st" "pr_i st \<le> end'"
  shows "pr_inv src end' st"
proof -
  have "stmt_start_at src (pr_last st) (pr_i st) (pr_i st)"
    using assms(3) by (auto simp add: stmt_start_at_def)
  moreover have "scan_run src end' (Normal, pr_i st) (pr_mode st, pr_i st)"
    using assms(2) by (simp add: scan_run_refl)
  ultimately show ?thesis using assms(1,4) unfolding pr_inv_def by blast
qed

lemma pr_inv_scan_step:
  assumes inv: "pr_inv src end' st" and i: "pr_i st < end'"
    and sc: "(pr_mode st', pr_i st') = scan_step src end' (pr_mode st, pr_i st)"
    and ex': "pr_excl st'" and l: "pr_last st' = pr_last st"
  shows "pr_inv src end' st'"
proof -
  from inv obtain a where ss: "stmt_start_at src (pr_last st) (pr_i st) a"
    and run: "scan_run src end' (Normal, a) (pr_mode st, pr_i st)"
    by (auto simp: pr_inv_def)
  from i have le: "pr_i st' \<le> end'"
    using scan_step_le [of "(pr_mode st, pr_i st)" end' src] sc [symmetric] by simp
  have lt: "pr_i st < pr_i st'"
    using scan_step_snd [of "(pr_mode st, pr_i st)" src end'] sc [symmetric] by simp
  from run i have run': "scan_run src end' (Normal, a) (pr_mode st', pr_i st')"
    unfolding sc by (rule scan_run_step [where y = "(pr_mode st, pr_i st)", simplified])
  have "\<exists>a'. stmt_start_at src (pr_last st') (pr_i st') a'
            \<and> scan_run src end' (Normal, a') (pr_mode st', pr_i st')"
  proof (cases "a < pr_i st \<or> \<not> isSpace (src ! pr_i st)")
    case True
    with ss lt have "stmt_start_at src (pr_last st') (pr_i st') a"
      unfolding l stmt_start_at_def by auto
    with run' show ?thesis by blast
  next
    case False
    with ss have a: "a = pr_i st" and sp: "isSpace (src ! pr_i st)"
      by (auto simp: stmt_start_at_def)
    from run a have "(pr_mode st, pr_i st) = (Normal, a)"
      by (intro scan_run_same [of src end']) simp_all
    then have m: "pr_mode st = Normal" by simp
    from sp m sc have st': "pr_mode st' = Normal" "pr_i st' = pr_i st + 1"
      by (simp_all add: scan_step_space)
    from ss a sp have "stmt_start_at src (pr_last st') (pr_i st') (pr_i st')"
      unfolding l st' stmt_start_at_def
      by (auto simp: less_Suc_eq)
    moreover have "scan_run src end' (Normal, pr_i st') (pr_mode st', pr_i st')"
      unfolding st'(1) by (rule scan_run_refl)
    ultimately show ?thesis by blast
  qed
  with ex' le show ?thesis by (simp add: pr_inv_def)
qed

text \<open>A run inside a window of the source is a run of the window.\<close>

lemma scan_run_window:
  assumes b: "b \<le> n" and n: "n \<le> length src"
  shows "scan_run src n (m0, a) y \<Longrightarrow> snd y < b \<Longrightarrow>
     scan_run (sub src a b) (b - a) (m0, 0) (fst y, snd y - a)"
  unfolding scan_run_def
proof (induction rule: rtranclp_induct)
  case base
  show ?case by simp
next
  case (step y z)
  from step.hyps(2) have yn: "snd y < n" and z: "z = scan_step src n y"
    by (simp_all add: scan_next_def)
  have yz: "snd y < snd z" unfolding z by (rule scan_step_snd)
  with step.prems have yb: "snd y < b" by simp
  with step.IH have run: "(scan_next (sub src a b) (b - a))\<^sup>*\<^sup>* (m0, 0) (fst y, snd y - a)"
    by simp
  from step.hyps(1) have ay: "a \<le> snd y"
    using scan_run_mono [of src n "(m0, a)" y] by (simp add: scan_run_def)
  from b n have bl: "b \<le> length src" by simp
  have c0: "sub src a b ! (snd y - a) = src ! snd y"
    using ay yb bl by (simp add: sub_nth)
  have c1: "Suc (snd y) < b \<Longrightarrow> sub src a b ! Suc (snd y - a) = src ! Suc (snd y)"
    using ay bl sub_nth [of a "Suc (snd y - a)" b src] by simp
  have l1: "Suc (snd y - a) < b - a \<longleftrightarrow> Suc (snd y) < b" using ay by auto
  have n1: "snd y + 1 < b \<Longrightarrow> snd y + 1 < n" using b by simp
  have zb: "snd (scan_step src n y) < b" using step.prems z by simp
  have "scan_step (sub src a b) (b - a) (fst y, snd y - a) = (fst z, snd z - a)"
  proof (cases "snd y + 1 < b")
    case True
    with n1 have "snd y + 1 < n" by simp
    with True ay show ?thesis
      unfolding z
      by (cases "fst y")
        (simp_all add: scan_step_def Let_def c0 c1 l1 Suc_diff_le)
  next
    case False
    with zb yb ay show ?thesis
      unfolding z
      by (cases "fst y")
        (auto simp add: scan_step_def Let_def c0 l1 Suc_diff_le split: if_splits)
  qed
  moreover from ay yb have "snd (fst y, snd y - a) < b - a" by auto
  ultimately have "scan_next (sub src a b) (b - a) (fst y, snd y - a) (fst z, snd z - a)"
    by (simp add: scan_next_def)
  with run show ?case by (rule rtranclp.rtrancl_into_rtrancl)
qed

section \<open>What Parse returns\<close>

text \<open>
  \<open>node_text\<close> is the source text a node stands for, \<open>verbatim\<close> the guard under which
  \<^verbatim>\<open>writeTo\<close> copies it, and \<open>Node_stmts\<close> the statements of a tree in the order of \<^verbatim>\<open>Walk\<close>.
  \<open>nodes_ok\<close> says that a list of nodes covers the bytes from \<open>a\<close> to \<open>b\<close> of the source,
  that every node is written verbatim, and that every statement in it has the keyword of its
  head.
\<close>

fun node_text :: "Node \<Rightarrow> string" where
  "node_text (RawNode r) = Text r"
| "node_text (StmtNode s) = RawText s"

fun verbatim :: "Node \<Rightarrow> bool" where
  "verbatim (RawNode r) = True"
| "verbatim (StmtNode s) = (\<not> Modified s \<and> RawText s \<noteq> [])"

fun Node_stmts :: "Node \<Rightarrow> Stmt list"
  and Stmt_stmts :: "Stmt \<Rightarrow> Stmt list" where
  "Node_stmts (RawNode r) = []"
| "Node_stmts (StmtNode s) = Stmt_stmts s"
| "Stmt_stmts (Stmt rawText start end' keyword headRaw hasBlock lBraceRaw body rBraceRaw
       trailingAfterR modified) =
     Stmt rawText start end' keyword headRaw hasBlock lBraceRaw body rBraceRaw
       trailingAfterR modified # concat (map Node_stmts body)"

definition parsed_ok :: "(string \<Rightarrow> string) \<Rightarrow> Stmt \<Rightarrow> bool" where
  "parsed_ok U s \<longleftrightarrow>
     skip_ok (HeadRaw s) 0 \<and> Keyword s = spec_keyword U (HeadRaw s) \<and> \<not> Modified s
     \<and> RawText s \<noteq> []"

definition nodes_ok :: "(string \<Rightarrow> string) \<Rightarrow> string \<Rightarrow> nat \<Rightarrow> nat \<Rightarrow> Node list \<Rightarrow> bool" where
  "nodes_ok U src a b ns \<longleftrightarrow>
     concat (map node_text ns) = sub src a b \<and> (\<forall>n\<in>set ns. verbatim n)
     \<and> (\<forall>s\<in>set (concat (map Node_stmts ns)). parsed_ok U s)"

lemma nodes_ok_Nil: "nodes_ok U src a a []"
  by (simp add: nodes_ok_def sub_same)

lemma nodes_ok_append:
  "nodes_ok U src a b ns \<Longrightarrow> nodes_ok U src b c ms \<Longrightarrow> a \<le> b \<Longrightarrow> b \<le> c \<Longrightarrow>
     nodes_ok U src a c (ns @ ms)"
  by (auto simp add: nodes_ok_def sub_append)

lemma nodes_ok_Raw: "nodes_ok U src a b [RawNode (Raw (sub src a b) x y)]"
  by (simp add: nodes_ok_def)

lemma buildStmt_lbEnd_le: "j \<le> bc \<Longrightarrow> buildStmt_lbEnd seg j bc \<le> bc"
proof (induction seg j bc rule: buildStmt_lbEnd.induct)
  case (1 seg lbEnd braceClose)
  then show ?case by (subst buildStmt_lbEnd.simps) auto
qed

lemma buildStmt_rbEnd_ok:
  "j \<le> semi \<Longrightarrow> semi \<le> length seg \<Longrightarrow>
     \<exists>r. buildStmt_rbEnd seg j semi = Some r \<and> j \<le> r \<and> r \<le> semi"
proof (induction seg j semi rule: buildStmt_rbEnd.induct)
  case (1 seg rbEnd semi)
  show ?case
  proof (cases "rbEnd < semi \<and> isSpace (seg ! rbEnd)")
    case True
    with "1.prems" have "\<exists>r. buildStmt_rbEnd seg (rbEnd + 1) semi = Some r \<and> rbEnd + 1 \<le> r \<and> r \<le> semi"
      by (intro "1.IH") simp_all
    then obtain r where "buildStmt_rbEnd seg (rbEnd + 1) semi = Some r" "rbEnd + 1 \<le> r" "r \<le> semi"
      by blast
    with True "1.prems" show ?thesis by (subst buildStmt_rbEnd.simps) simp
  next
    case False
    with "1.prems" show ?thesis by (subst buildStmt_rbEnd.simps) auto
  qed
qed

lemma bytes_LastIndexByte_last:
  "seg \<noteq> [] \<Longrightarrow> last seg = c \<Longrightarrow> bytes_LastIndexByte seg c = int (length seg) - 1"
proof (induction seg)
  case Nil
  then show ?case by simp
next
  case (Cons x xs)
  show ?case
  proof (cases "xs = []")
    case True
    with Cons.prems show ?thesis by simp
  next
    case False
    with Cons have "bytes_LastIndexByte xs c = int (length xs) - 1" by simp
    moreover from False have "0 < length xs" by simp
    ultimately show ?thesis by (simp add: Let_def)
  qed
qed

lemma buildStmt_keyword_ok:
  assumes "skip_ok head 0"
  shows "buildStmt_keyword U seg a head hb lb body rb tr
    = Some (Inr (Stmt seg a (a + length seg) (spec_keyword U head) head hb lb body rb tr False))"
  using firstIdent_of_skip_ok [OF assms]
  by (simp add: buildStmt_keyword_def spec_keyword_def)

text \<open>
  The four functions are defined together, and what they return is proved together, by the
  induction of their definition: each returns a value (no panic) with the properties below.
\<close>

definition range_ok :: "(string \<Rightarrow> string) \<Rightarrow> string \<Rightarrow> nat \<Rightarrow> nat \<Rightarrow> bool" where
  "range_ok U src start end' \<longleftrightarrow>
     (start \<le> end' \<longrightarrow> end' \<le> length src \<longrightarrow>
        (\<exists>ns. parseRange U src start end' = Some (Inr ns) \<and> nodes_ok U src start end' ns))"

definition loop_ok :: "(string \<Rightarrow> string) \<Rightarrow> string \<Rightarrow> nat \<Rightarrow> pr_state \<Rightarrow> bool" where
  "loop_ok U src end' st \<longleftrightarrow>
     (pr_inv src end' st \<longrightarrow> end' \<le> length src \<longrightarrow>
        (\<exists>fin new. parseRange_loop U src end' st = Some fin \<and> pr_inv src end' fin
           \<and> pr_nodes fin = pr_nodes st @ new \<and> pr_last st \<le> pr_last fin
           \<and> nodes_ok U src (pr_last st) (pr_last fin) new))"

definition body_ok :: "(string \<Rightarrow> string) \<Rightarrow> string \<Rightarrow> nat \<Rightarrow> pr_state \<Rightarrow> bool" where
  "body_ok U src end' st \<longleftrightarrow>
     (pr_inv src end' st \<longrightarrow> pr_i st < end' \<longrightarrow> end' \<le> length src \<longrightarrow>
        (\<exists>st' new. parseRange_body U src end' st = Some st' \<and> pr_inv src end' st'
           \<and> pr_nodes st' = pr_nodes st @ new \<and> pr_last st \<le> pr_last st'
           \<and> nodes_ok U src (pr_last st) (pr_last st') new))"

definition build_ok :: "(string \<Rightarrow> string) \<Rightarrow> string \<Rightarrow> string \<Rightarrow> nat \<Rightarrow> bool" where
  "build_ok U src seg absStart \<longleftrightarrow>
     (seg \<noteq> [] \<longrightarrow> last seg = CHR '';'' \<longrightarrow>
      scan_run seg (length seg) (Normal, 0) (Normal, length seg - 1) \<longrightarrow>
      absStart + length seg \<le> length src \<longrightarrow>
        (\<exists>s. buildStmt U src seg absStart = Some (Inr s) \<and> RawText s = seg \<and> \<not> Modified s
           \<and> (\<forall>x\<in>set (Stmt_stmts s). parsed_ok U x)))"

lemma pr_inv_last: "pr_inv src end' st \<Longrightarrow> pr_last st \<le> pr_i st \<and> pr_i st \<le> end'"
  by (auto simp: pr_inv_def stmt_start_at_def)

lemma range_step:
  assumes "loop_ok U src end' (pr_init start)"
  shows "range_ok U src start end'"
  unfolding range_ok_def
proof (intro impI)
  assume se: "start \<le> end'" and el: "end' \<le> length src"
  have "pr_inv src end' (pr_init start)"
    using se by (intro pr_inv_fresh) (simp_all add: pr_init_def pr_excl_def pr_mode_def)
  with assms el obtain fin new where
    l: "parseRange_loop U src end' (pr_init start) = Some fin" and inv: "pr_inv src end' fin"
    and n: "pr_nodes fin = new" and le: "start \<le> pr_last fin"
    and ok: "nodes_ok U src start (pr_last fin) new"
    by (auto simp add: loop_ok_def pr_init_def)
  from inv have lf: "pr_last fin \<le> end'" using pr_inv_last [of src end' fin] by simp
  show "\<exists>ns. parseRange U src start end' = Some (Inr ns) \<and> nodes_ok U src start end' ns"
  proof (cases "pr_last fin < end'")
    case True
    with el have sl: "slice src (pr_last fin) end' = Some (sub src (pr_last fin) end')"
      by (simp add: slice_sub)
    have "nodes_ok U src start end'
        (new @ [RawNode (Raw (sub src (pr_last fin) end') (pr_last fin) end')])"
      using ok nodes_ok_Raw le lf by (rule nodes_ok_append)
    with True l sl n show ?thesis
      by (simp add: parseRange.simps pr_init_def)
  next
    case False
    with lf have "pr_last fin = end'" by simp
    with False l n ok show ?thesis
      by (simp add: parseRange.simps pr_init_def)
  qed
qed

lemma loop_step:
  assumes b: "pr_i st < end' \<Longrightarrow> body_ok U src end' st"
    and r: "\<And>st'. pr_i st < end' \<Longrightarrow> parseRange_body U src end' st = Some st' \<Longrightarrow>
              loop_ok U src end' st'"
  shows "loop_ok U src end' st"
  unfolding loop_ok_def
proof (intro impI)
  assume inv: "pr_inv src end' st" and el: "end' \<le> length src"
  show "\<exists>fin new. parseRange_loop U src end' st = Some fin \<and> pr_inv src end' fin
           \<and> pr_nodes fin = pr_nodes st @ new \<and> pr_last st \<le> pr_last fin
           \<and> nodes_ok U src (pr_last st) (pr_last fin) new"
  proof (cases "pr_i st < end'")
    case False
    then have "parseRange_loop U src end' st = Some st"
      by (subst parseRange_loop.simps) simp
    with inv nodes_ok_Nil [of U src "pr_last st"] show ?thesis by simp
  next
    case True
    with b inv el obtain st' new where
      bd: "parseRange_body U src end' st = Some st'" and inv': "pr_inv src end' st'"
      and n: "pr_nodes st' = pr_nodes st @ new" and le: "pr_last st \<le> pr_last st'"
      and ok: "nodes_ok U src (pr_last st) (pr_last st') new"
      by (auto simp add: body_ok_def)
    from r [OF True bd] inv' el obtain fin new' where
      l: "parseRange_loop U src end' st' = Some fin" and invf: "pr_inv src end' fin"
      and n': "pr_nodes fin = pr_nodes st' @ new'" and le': "pr_last st' \<le> pr_last fin"
      and ok': "nodes_ok U src (pr_last st') (pr_last fin) new'"
      by (auto simp add: loop_ok_def)
    from True bd l have "parseRange_loop U src end' st = Some fin"
      by (subst parseRange_loop.simps) simp
    moreover from ok ok' le le' have "nodes_ok U src (pr_last st) (pr_last fin) (new @ new')"
      by (rule nodes_ok_append)
    ultimately show ?thesis using invf n n' le le' by simp
  qed
qed


lemma nodes_ok_Stmt:
  assumes "RawText s = sub src a b" "\<not> Modified s" "RawText s \<noteq> []"
    "\<forall>x\<in>set (Stmt_stmts s). parsed_ok U x"
  shows "nodes_ok U src a b [StmtNode s]"
  using assms by (simp add: nodes_ok_def)

lemma body_step:
  assumes s: "\<And>a seg. pr_boundary src st \<Longrightarrow> pr_i st < length src \<Longrightarrow>
      findStmtStart src (pr_last st) (pr_i st) = Some a \<Longrightarrow>
      slice src a (pr_i st + 1) = Some seg \<Longrightarrow> build_ok U src seg a"
  shows "body_ok U src end' st"
  unfolding body_ok_def
proof (intro impI)
  assume inv: "pr_inv src end' st" and i: "pr_i st < end'" and el: "end' \<le> length src"
  from inv have ex: "pr_excl st" by (simp add: pr_inv_def)
  from i el have il: "pr_i st < length src" by simp
  show "\<exists>st' new. parseRange_body U src end' st = Some st' \<and> pr_inv src end' st'
           \<and> pr_nodes st' = pr_nodes st @ new \<and> pr_last st \<le> pr_last st'
           \<and> nodes_ok U src (pr_last st) (pr_last st') new"
  proof (cases "pr_boundary src st")
    case False
    with ex i el obtain st' where bd: "parseRange_body U src end' st = Some st'"
      and sc: "(pr_mode st', pr_i st') = scan_step src end' (pr_mode st, pr_i st)"
      and ex': "pr_excl st'" and l: "pr_last st' = pr_last st"
      and n: "pr_nodes st' = pr_nodes st"
      using parseRange_body_scan [of st end' src U] by blast
    from inv i sc ex' l have "pr_inv src end' st'" by (rule pr_inv_scan_step)
    with bd l n nodes_ok_Nil [of U src "pr_last st"] show ?thesis by simp
  next
    case True
    then have m: "pr_mode st = Normal" and semi: "src ! pr_i st = CHR '';''"
      by (simp_all add: pr_boundary_def pr_mode_def)
    from inv obtain a where ss: "stmt_start_at src (pr_last st) (pr_i st) a"
      and run: "scan_run src end' (Normal, a) (Normal, pr_i st)"
      unfolding pr_inv_def m by blast
    from ss have la: "pr_last st \<le> a" and ai: "a \<le> pr_i st"
      by (simp_all add: stmt_start_at_def)
    from ss il have fss: "findStmtStart src (pr_last st) (pr_i st) = Some a"
      by (intro findStmtStart_unique) simp_all
    let ?seg = "sub src a (pr_i st + 1)"
    from ai il have sl: "slice src a (pr_i st + 1) = Some ?seg"
      by (intro slice_sub) simp_all
    from il have len: "length ?seg = pr_i st + 1 - a" by (simp add: sub_length)
    with ai have ne: "?seg \<noteq> []" by auto
    from ai il have "?seg ! (pr_i st - a) = src ! (a + (pr_i st - a))"
      by (intro sub_nth) simp_all
    with ai semi len have "?seg ! (length ?seg - 1) = CHR '';''" by simp
    with ne have ls: "last ?seg = CHR '';''" by (simp add: last_conv_nth)
    have "scan_run ?seg (pr_i st + 1 - a) (Normal, 0) (fst (Normal, pr_i st), snd (Normal, pr_i st) - a)"
      using _ el run by (rule scan_run_window) (use i in simp_all)
    with ai len have srun: "scan_run ?seg (length ?seg) (Normal, 0) (Normal, length ?seg - 1)"
      by simp
    from ai il len have al: "a + length ?seg \<le> length src" by simp
    from s [OF True il fss sl] ne ls srun al obtain stmt where
      b: "buildStmt U src ?seg a = Some (Inr stmt)" and rt: "RawText stmt = ?seg"
      and md: "\<not> Modified stmt" and gd: "\<forall>x\<in>set (Stmt_stmts stmt). parsed_ok U x"
      by (auto simp add: build_ok_def)
    let ?raw = "if pr_last st < a then [RawNode (Raw (sub src (pr_last st) a) (pr_last st) a)]
                else []"
    let ?st' = "st\<lparr>pr_nodes := (pr_nodes st @ ?raw) @ [StmtNode stmt],
                   pr_last := pr_i st + 1, pr_i := pr_i st + 1\<rparr>"
    from la ai il have slr: "slice src (pr_last st) a = Some (sub src (pr_last st) a)"
      by (intro slice_sub) simp_all
    have bd: "parseRange_body U src end' st = Some ?st'"
      unfolding parseRange_body_boundary [OF True il]
      using fss slr sl b by simp
    from True have fl: "\<not> pr_inLine st" "\<not> pr_inSlashStar st" "\<not> pr_inString st"
      by (simp_all add: pr_boundary_def)
    have "pr_inv src end' ?st'"
      using fl i by (intro pr_inv_fresh) (simp_all add: pr_excl_def pr_mode_def)
    moreover have "nodes_ok U src (pr_last st) (pr_i st + 1) (?raw @ [StmtNode stmt])"
    proof (rule nodes_ok_append [where b = a])
      show "nodes_ok U src (pr_last st) a ?raw"
      proof (cases "pr_last st < a")
        case True
        then show ?thesis by (simp add: nodes_ok_Raw)
      next
        case False
        with la have "pr_last st = a" by simp
        then show ?thesis by (simp add: nodes_ok_Nil)
      qed
      show "nodes_ok U src a (pr_i st + 1) [StmtNode stmt]"
        using rt md _ gd by (rule nodes_ok_Stmt) (use rt ne in simp)
      show "pr_last st \<le> a" by (rule la)
      show "a \<le> pr_i st + 1" using ai by simp
    qed
    moreover from la ai have "pr_last st \<le> pr_i st + 1" by simp
    ultimately show ?thesis using bd
      by (intro exI [of _ ?st'] exI [of _ "?raw @ [StmtNode stmt]"]) simp
  qed
qed

lemma build_step:
  fixes seg :: string
  defines "fin \<equiv> buildStmt_loop seg bs_init"
  assumes p: "\<not> bytes_LastIndexByte seg (CHR '';'') < 0 \<Longrightarrow>
      0 \<le> bs_braceOpen fin \<and> 0 \<le> bs_braceClose fin
        \<and> bs_braceOpen fin < bs_braceClose fin \<Longrightarrow>
      buildStmt_lbEnd seg (nat (bs_braceOpen fin) + 1) (nat (bs_braceClose fin))
        < nat (bs_braceClose fin) \<Longrightarrow>
      range_ok U src
        (absStart + buildStmt_lbEnd seg (nat (bs_braceOpen fin) + 1) (nat (bs_braceClose fin)))
        (absStart + nat (bs_braceClose fin))"
  shows "build_ok U src seg absStart"
  unfolding build_ok_def
proof (intro impI)
  assume ne: "seg \<noteq> []" and ls: "last seg = CHR '';''"
    and run: "scan_run seg (length seg) (Normal, 0) (Normal, length seg - 1)"
    and al: "absStart + length seg \<le> length src"
  have inv: "bs_inv seg fin" unfolding fin_def by (rule buildStmt_loop_inv)
  from ne ls have semi: "bytes_LastIndexByte seg (CHR '';'') = int (length seg) - 1"
    by (rule bytes_LastIndexByte_last)
  from ne have lpos: "0 < length seg" by simp
  from ne ls have lastc: "seg ! (length seg - 1) = CHR '';''" by (simp add: last_conv_nth)
  let ?semi = "length seg - 1"
  have nsemi: "nat (int (length seg) - 1) = ?semi" by simp
  have unf: "buildStmt U src seg absStart =
     (if 0 \<le> bs_braceOpen fin \<and> 0 \<le> bs_braceClose fin \<and> bs_braceOpen fin < bs_braceClose fin
      then
        (case slice seg 0 (nat (bs_braceOpen fin)) of
           None \<Rightarrow> None
         | Some headRaw \<Rightarrow>
        (case slice seg (nat (bs_braceOpen fin))
                (buildStmt_lbEnd seg (nat (bs_braceOpen fin) + 1) (nat (bs_braceClose fin))) of
           None \<Rightarrow> None
         | Some lBraceRaw \<Rightarrow>
        (case slice seg (buildStmt_lbEnd seg (nat (bs_braceOpen fin) + 1) (nat (bs_braceClose fin)))
                (nat (bs_braceClose fin)) of
           None \<Rightarrow> None
         | Some bodySrc \<Rightarrow>
        (case (if 0 < length bodySrc then
                 (case parseRange U src
                      (absStart + buildStmt_lbEnd seg (nat (bs_braceOpen fin) + 1)
                         (nat (bs_braceClose fin)))
                      (absStart + nat (bs_braceClose fin)) of
                    None \<Rightarrow> None
                  | Some (Inl err) \<Rightarrow>
                      Some [RawNode (Raw bodySrc
                        (absStart + buildStmt_lbEnd seg (nat (bs_braceOpen fin) + 1)
                           (nat (bs_braceClose fin)))
                        (absStart + nat (bs_braceClose fin)))]
                  | Some (Inr bodyNodes) \<Rightarrow> Some bodyNodes)
               else Some []) of
           None \<Rightarrow> None
         | Some body \<Rightarrow>
        (case buildStmt_rbEnd seg (nat (bs_braceClose fin) + 1) ?semi of
           None \<Rightarrow> None
         | Some rbEnd \<Rightarrow>
        (case slice seg (nat (bs_braceClose fin)) rbEnd of
           None \<Rightarrow> None
         | Some rBraceRaw \<Rightarrow>
        (case slice seg rbEnd ?semi of
           None \<Rightarrow> None
         | Some trailingAfterR \<Rightarrow>
             buildStmt_keyword U seg absStart headRaw True lBraceRaw body rBraceRaw
               trailingAfterR)))))))
      else
        (case slice seg 0 ?semi of
           None \<Rightarrow> None
         | Some headRaw \<Rightarrow> buildStmt_keyword U seg absStart headRaw False [] [] [] []))"
    unfolding buildStmt.simps [of U src seg absStart] Let_def semi nsemi fin_def bs_init_def
    using lpos by (subst if_not_P) (simp, rule refl)
  have take0: "\<And>k. sub seg 0 k = take k seg" by (simp add: sub_def)
  show "\<exists>s. buildStmt U src seg absStart = Some (Inr s) \<and> RawText s = seg \<and> \<not> Modified s
           \<and> (\<forall>x\<in>set (Stmt_stmts s). parsed_ok U x)"
  proof (cases "0 \<le> bs_braceOpen fin \<and> 0 \<le> bs_braceClose fin
      \<and> bs_braceOpen fin < bs_braceClose fin")
    case False
    from lpos have "slice seg 0 ?semi = Some (sub seg 0 ?semi)"
      by (intro slice_sub) simp_all
    then have sl: "slice seg 0 ?semi = Some (take ?semi seg)" by (simp only: take0)
    from run have ok: "skip_ok (take ?semi seg) 0"
      by (rule head_skip_ok) simp_all
    have "buildStmt U src seg absStart =
        Some (Inr (Stmt seg absStart (absStart + length seg) (spec_keyword U (take ?semi seg))
                (take ?semi seg) False [] [] [] [] False))"
      unfolding unf
      by (simp only: False if_False sl option.case buildStmt_keyword_ok [OF ok])
    with ne ok show ?thesis by (simp add: parsed_ok_def)
  next
    case True
    let ?bo = "nat (bs_braceOpen fin)" and ?bc = "nat (bs_braceClose fin)"
    let ?lb = "buildStmt_lbEnd seg (?bo + 1) ?bc"
    from True inv have bol: "?bo < length seg"
      and run0: "scan_run seg (length seg) (Normal, 0) (Normal, ?bo)"
      and bcl: "?bc < length seg" and bcc: "seg ! ?bc = CHR ''}''"
      by (simp_all add: bs_inv_def)
    from True have boc: "?bo < ?bc" by simp
    from bcc lastc have "?bc \<noteq> ?semi" by auto
    with bcl have bcs: "?bc + 1 \<le> ?semi" by simp
    have lb1: "?bo + 1 \<le> ?lb" by (rule buildStmt_lbEnd_ge)
    from True have bo1: "?bo + 1 \<le> ?bc" by auto
    then have lb2: "?lb \<le> ?bc" by (rule buildStmt_lbEnd_le)
    from bol have "slice seg 0 ?bo = Some (sub seg 0 ?bo)" by (intro slice_sub) simp_all
    then have s1: "slice seg 0 ?bo = Some (take ?bo seg)" by (simp only: take0)
    from lb1 lb2 bcl have s2: "slice seg ?bo ?lb = Some (sub seg ?bo ?lb)"
      by (intro slice_sub) simp_all
    from lb2 bcl have s3: "slice seg ?lb ?bc = Some (sub seg ?lb ?bc)"
      by (intro slice_sub) simp_all
    from bcl have l3: "length (sub seg ?lb ?bc) = ?bc - ?lb" by (simp add: sub_length)
    from bcs lpos obtain r where rb: "buildStmt_rbEnd seg (?bc + 1) ?semi = Some r"
      and r1: "?bc + 1 \<le> r" and r2: "r \<le> ?semi"
      using buildStmt_rbEnd_ok [of "?bc + 1" ?semi seg] by auto
    from r1 r2 lpos have s4: "slice seg ?bc r = Some (sub seg ?bc r)"
      by (intro slice_sub) simp_all
    from r2 lpos have s5: "slice seg r ?semi = Some (sub seg r ?semi)"
      by (intro slice_sub) simp_all
    from run0 bol have ok: "skip_ok (take ?bo seg) 0"
      by (intro head_skip_ok [where n = "length seg"]) simp_all
    have "\<exists>body. (if 0 < length (sub seg ?lb ?bc) then
                 (case parseRange U src (absStart + ?lb) (absStart + ?bc) of
                    None \<Rightarrow> None
                  | Some (Inl err) \<Rightarrow>
                      Some [RawNode (Raw (sub seg ?lb ?bc) (absStart + ?lb) (absStart + ?bc))]
                  | Some (Inr bodyNodes) \<Rightarrow> Some bodyNodes)
               else Some []) = Some body
          \<and> (\<forall>s\<in>set (concat (map Node_stmts body)). parsed_ok U s)"
    proof (cases "?lb < ?bc")
      case False
      with l3 show ?thesis by simp
    next
      case lt: True
      from lpos have "\<not> bytes_LastIndexByte seg (CHR '';'') < 0" by (simp add: semi)
      from p [OF this True lt] bcl al obtain ns where
        "parseRange U src (absStart + ?lb) (absStart + ?bc) = Some (Inr ns)"
        and "nodes_ok U src (absStart + ?lb) (absStart + ?bc) ns"
        using lb2 by (auto simp add: range_ok_def)
      with lt l3 show ?thesis by (simp add: nodes_ok_def)
    qed
    then obtain body where
      bd: "(if 0 < length (sub seg ?lb ?bc) then
                 (case parseRange U src (absStart + ?lb) (absStart + ?bc) of
                    None \<Rightarrow> None
                  | Some (Inl err) \<Rightarrow>
                      Some [RawNode (Raw (sub seg ?lb ?bc) (absStart + ?lb) (absStart + ?bc))]
                  | Some (Inr bodyNodes) \<Rightarrow> Some bodyNodes)
               else Some []) = Some body"
      and gd: "\<forall>s\<in>set (concat (map Node_stmts body)). parsed_ok U s"
      by blast
    have "buildStmt U src seg absStart =
        Some (Inr (Stmt seg absStart (absStart + length seg) (spec_keyword U (take ?bo seg))
                (take ?bo seg) True (sub seg ?bo ?lb) body (sub seg ?bc r) (sub seg r ?semi)
                False))"
      unfolding unf
      by (simp only: True if_True s1 s2 s3 bd rb s4 s5 option.case buildStmt_keyword_ok [OF ok]
          simp_thms)
    with gd ne ok show ?thesis by (simp add: parsed_ok_def)
  qed
qed

lemma parse_all_ok:
  shows "range_ok U src start end'"
    and "loop_ok U src end' st"
    and "body_ok U src end' st"
    and "build_ok U src seg absStart"
proof (induction U src start end' and U src end' st and U src end' st and U src seg absStart
    rule: parseRange_parseRange_loop_parseRange_body_buildStmt.induct)
  case (1 U src start end')
  show ?case by (rule range_step) (unfold pr_init_def, rule "1.IH")
next
  case (2 U src end' st)
  show ?case
  proof (rule loop_step)
    assume "pr_i st < end'"
    then show "body_ok U src end' st" by (rule "2.IH"(1))
  next
    fix st'
    assume "pr_i st < end'" and "parseRange_body U src end' st = Some st'"
    then show "loop_ok U src end' st'" by (rule "2.IH"(2))
  qed
next
  case (3 U src end' st)
  show ?case
  proof (rule body_step)
    fix a seg
    assume b: "pr_boundary src st" and il: "pr_i st < length src"
      and fss: "findStmtStart src (pr_last st) (pr_i st) = Some a"
      and sl: "slice src a (pr_i st + 1) = Some seg"
    from fss have la: "pr_last st \<le> a" by (rule findStmtStart_ge)
    have "\<exists>nodes. (if pr_last st < a then
              (case slice src (pr_last st) a of None \<Rightarrow> None
               | Some text \<Rightarrow> Some (pr_nodes st @ [RawNode (Raw text (pr_last st) a)]))
            else Some (pr_nodes st)) = Some nodes"
    proof -
      from sl have "a \<le> length src" by (auto simp add: slice_def split: if_splits)
      with la have "slice src (pr_last st) a = Some (sub src (pr_last st) a)"
        by (rule slice_sub)
      then show ?thesis by simp
    qed
    then obtain nodes where n: "(if pr_last st < a then
              (case slice src (pr_last st) a of None \<Rightarrow> None
               | Some text \<Rightarrow> Some (pr_nodes st @ [RawNode (Raw text (pr_last st) a)]))
            else Some (pr_nodes st)) = Some nodes" ..
    show "build_ok U src seg a"
      by (rule "3.IH" [OF refl _ refl _ _ _ _ _ _ _ _ _ _ _ fss n sl])
        (use b il in \<open>simp_all add: pr_boundary_def special_chars\<close>)
  qed
next
  case (4 U src seg absStart)
  show ?case
  proof (rule build_step)
    let ?fin = "buildStmt_loop seg bs_init"
    let ?bo = "nat (bs_braceOpen ?fin)" and ?bc = "nat (bs_braceClose ?fin)"
    let ?lb = "buildStmt_lbEnd seg (?bo + 1) ?bc"
    assume sm: "\<not> bytes_LastIndexByte seg (CHR '';'') < 0"
      and c: "0 \<le> bs_braceOpen ?fin \<and> 0 \<le> bs_braceClose ?fin
        \<and> bs_braceOpen ?fin < bs_braceClose ?fin"
      and lt: "?lb < ?bc"
    have inv: "bs_inv seg ?fin" by (rule buildStmt_loop_inv)
    from c inv have bol: "?bo < length seg" and bcl: "?bc < length seg"
      by (simp_all add: bs_inv_def)
    have lb1: "?bo + 1 \<le> ?lb" by (rule buildStmt_lbEnd_ge)
    from bol have s1: "slice seg 0 ?bo = Some (sub seg 0 ?bo)" by (intro slice_sub) simp_all
    from lb1 lt bcl have s2: "slice seg ?bo ?lb = Some (sub seg ?bo ?lb)"
      by (intro slice_sub) simp_all
    from lt bcl have s3: "slice seg ?lb ?bc = Some (sub seg ?lb ?bc)"
      by (intro slice_sub) simp_all
    from lt bcl have l3: "0 < length (sub seg ?lb ?bc)" by (simp add: sub_length)
    show "range_ok U src (absStart + ?lb) (absStart + ?bc)"
      by (rule "4.IH" [OF _ refl refl refl sm c s1 refl s2 refl refl s3 l3])
        (simp add: bs_init_def)
  qed
qed

text \<open>\<^verbatim>\<open>File.Find\<close>: the statements of the tree, in the order of \<^verbatim>\<open>Walk\<close>, that satisfy \<open>pred\<close>.\<close>

definition Find :: "File \<Rightarrow> (Stmt \<Rightarrow> bool) \<Rightarrow> Stmt list" where
  "Find f pred = filter pred (concat (map Node_stmts (Nodes f)))"

lemma foldl_writeTo_verbatim:
  "\<forall>n\<in>set ns. verbatim n \<Longrightarrow>
     foldl (\<lambda>buf n. Node_writeTo n buf) buf ns = buf @ concat (map node_text ns)"
proof (induction ns arbitrary: buf)
  case Nil
  show ?case by simp
next
  case (Cons n ns)
  from Cons.prems have v: "verbatim n" by simp
  have "Node_writeTo n buf = buf @ node_text n"
  proof (cases n)
    case (RawNode r)
    then show ?thesis by simp
  next
    case (StmtNode s)
    with v show ?thesis by (cases s) (simp add: Stmt_writeTo.simps)
  qed
  with Cons show ?case by simp
qed

lemma Parse_ok:
  "\<exists>ns. Parse U src = Some (Inr \<lparr>Nodes = ns, file_src = src, file_path = []\<rparr>)
     \<and> nodes_ok U src 0 (length src) ns"
proof -
  have "range_ok U src 0 (length src)" by (rule parse_all_ok(1))
  then obtain ns where "parseRange U src 0 (length src) = Some (Inr ns)"
    and "nodes_ok U src 0 (length src) ns"
    by (auto simp add: range_ok_def)
  then show ?thesis by (simp add: Parse_def)
qed

section \<open>Round trip\<close>

text \<open>
  Claim C1: for every byte string \<open>b\<close>, \<^verbatim>\<open>Parse\<close> returns a file, with no panic and no error; no
  statement of its tree is marked modified; and \<^verbatim>\<open>Bytes\<close>, like \<^verbatim>\<open>WriteTo\<close> on an empty buffer,
  gives back exactly \<open>b\<close>.
\<close>

theorem C1_round_trip:
  "\<exists>f. Parse U b = Some (Inr f) \<and> Bytes f = b \<and> WriteTo f [] = b
     \<and> list_all (\<lambda>s. \<not> Modified s) (Find f (\<lambda>s. True))"
proof -
  from Parse_ok [of U b] obtain ns where
    p: "Parse U b = Some (Inr \<lparr>Nodes = ns, file_src = b, file_path = []\<rparr>)"
    and ok: "nodes_ok U b 0 (length b) ns"
    by blast
  from ok have c: "concat (map node_text ns) = b" and v: "\<forall>n\<in>set ns. verbatim n"
    and d: "\<forall>s\<in>set (concat (map Node_stmts ns)). parsed_ok U s"
    by (simp_all add: nodes_ok_def sub_def)
  from v have "foldl (\<lambda>buf n. Node_writeTo n buf) [] ns = [] @ concat (map node_text ns)"
    by (rule foldl_writeTo_verbatim)
  with c have "foldl (\<lambda>buf n. Node_writeTo n buf) [] ns = b" by simp
  moreover from d have "list_all (\<lambda>s. \<not> Modified s) (concat (map Node_stmts ns))"
    unfolding list_all_iff by (simp add: parsed_ok_def)
  ultimately show ?thesis using p by (simp add: Bytes_def WriteTo_def Find_def)
qed

theorem C1_round_trip_witness:
  \<open>\<exists>f. Parse (\<lambda>s. s) ''a { b "}" ; /* } */ } ; # c'' = Some (Inr f)
     \<and> Bytes f = ''a { b "}" ; /* } */ } ; # c''\<close>
  using C1_round_trip [of "\<lambda>s. s" \<open>''a { b "}" ; /* } */ } ; # c''\<close>] by blast

section \<open>Parse is total\<close>



section \<open>Keywords\<close>





section \<open>The brace depth\<close>

lemma parseRange_body_depth:
  "parseRange_body U src end' st = Some st' \<Longrightarrow> 0 \<le> pr_depth st \<Longrightarrow> 0 \<le> pr_depth st'"
  by (auto simp add: parseRange_body.simps Let_def split: if_splits option.splits sum.splits)

lemma parseRange_body_close_at_zero:
  "parseRange_body U src end' st = Some st' \<Longrightarrow> \<not> pr_inLine st \<Longrightarrow> \<not> pr_inSlashStar st \<Longrightarrow>
     \<not> pr_inString st \<Longrightarrow> src ! pr_i st = CHR ''}'' \<Longrightarrow> pr_depth st = 0 \<Longrightarrow>
     pr_depth st' = 0 \<and> pr_i st' = pr_i st + 1 \<and> pr_last st' = pr_last st
     \<and> pr_nodes st' = pr_nodes st"
  by (auto simp add: parseRange_body.simps Let_def quote_def split: if_splits)

lemma parseRange_reach_depth: "parseRange_reach U src start end' st \<Longrightarrow> 0 \<le> pr_depth st"
proof (induction rule: parseRange_reach.induct)
  case init
  show ?case by (simp add: pr_init_def)
next
  case (step st st')
  from step.hyps(3) step.IH show ?case by (rule parseRange_body_depth)
qed

lemma buildStmt_reach_depth: "buildStmt_reach seg st \<Longrightarrow> 0 \<le> bs_depth st"
  using buildStmt_reach_inv [of seg st] by (simp add: bs_inv_def)

lemma parseRange_body_i: "parseRange_body U src end' st = Some st' \<Longrightarrow> pr_i st < pr_i st'"
  by (auto simp add: parseRange_body.simps Let_def split: if_splits option.splits sum.splits)

lemma parseRange_loop_reach:
  "parseRange_loop U src end' st = Some fin \<Longrightarrow> parseRange_reach U src start end' st \<Longrightarrow>
     parseRange_reach U src start end' fin"
proof (induction "end' - pr_i st" arbitrary: st rule: less_induct)
  case less
  show ?case
  proof (cases "pr_i st < end'")
    case False
    with less.prems(1) have "fin = st" by (subst (asm) parseRange_loop.simps) simp
    with less.prems(2) show ?thesis by simp
  next
    case True
    with less.prems(1) obtain st' where b: "parseRange_body U src end' st = Some st'"
      and l: "parseRange_loop U src end' st' = Some fin"
      by (subst (asm) parseRange_loop.simps) (auto split: option.splits)
    from b have "pr_i st < pr_i st'" by (rule parseRange_body_i)
    with True have "end' - pr_i st' < end' - pr_i st" by simp
    moreover from less.prems(2) True b have "parseRange_reach U src start end' st'"
      by (rule parseRange_reach.step)
    ultimately show ?thesis using l by (intro less.hyps) simp_all
  qed
qed

text \<open>
  Claim C10: the depth is not negative in any state that the loop of \<^verbatim>\<open>parseRange\<close> reaches
  and in any state that the loop of \<^verbatim>\<open>buildStmt\<close> reaches; the states in which the loops end
  are among them. A \<open>}\<close> in \<open>Normal\<close> context at depth 0 leaves the depth at 0; in
  \<^verbatim>\<open>parseRange\<close> it only moves the index by one. The source \<^verbatim>\<open>} a; b;\<close> is split at both
  semicolons.
\<close>

theorem C10_depth_never_negative:
  "(parseRange_reach U src start end' st \<longrightarrow> 0 \<le> pr_depth st)
   \<and> (buildStmt_reach seg bst \<longrightarrow> 0 \<le> bs_depth bst)
   \<and> (parseRange_loop U src end' (pr_init start) = Some fin \<longrightarrow>
        parseRange_reach U src start end' fin)
   \<and> buildStmt_reach seg (buildStmt_loop seg bs_init)
   \<and> (parseRange_body U src end' st = Some st' \<and> \<not> pr_inLine st \<and> \<not> pr_inSlashStar st
        \<and> \<not> pr_inString st \<and> src ! pr_i st = CHR ''}'' \<and> pr_depth st = 0
      \<longrightarrow> pr_depth st' = 0 \<and> pr_i st' = pr_i st + 1 \<and> pr_last st' = pr_last st
          \<and> pr_nodes st' = pr_nodes st)
   \<and> (\<not> bs_inLine bst \<and> \<not> bs_inSlashStar bst \<and> \<not> bs_inString bst
        \<and> seg ! bs_i bst = CHR ''}'' \<and> bs_depth bst = 0
      \<longrightarrow> bs_depth (buildStmt_body seg bst) = 0)
   \<and> Parse U ''} a; b;'' =
       Some (Inr \<lparr>Nodes =
          [StmtNode (Stmt ''} a;'' 0 4 ''}'' ''} a'' False [] [] [] [] False),
           RawNode (Raw '' '' 4 5),
           StmtNode (Stmt ''b;'' 5 7 ''b'' ''b'' False [] [] [] [] False)],
          file_src = ''} a; b;'', file_path = []\<rparr>)"
proof -
  have 1: "parseRange_reach U src start end' st \<longrightarrow> 0 \<le> pr_depth st"
    by (simp add: parseRange_reach_depth)
  have 2: "buildStmt_reach seg bst \<longrightarrow> 0 \<le> bs_depth bst"
    by (simp add: buildStmt_reach_depth)
  have 3: "parseRange_loop U src end' (pr_init start) = Some fin \<longrightarrow>
        parseRange_reach U src start end' fin"
    using parseRange_loop_reach [OF _ parseRange_reach.init] by blast
  have 4: "buildStmt_reach seg (buildStmt_loop seg bs_init)"
    by (rule buildStmt_loop_reach) (rule buildStmt_reach.init)
  have 5: "parseRange_body U src end' st = Some st' \<and> \<not> pr_inLine st \<and> \<not> pr_inSlashStar st
        \<and> \<not> pr_inString st \<and> src ! pr_i st = CHR ''}'' \<and> pr_depth st = 0
      \<longrightarrow> pr_depth st' = 0 \<and> pr_i st' = pr_i st + 1 \<and> pr_last st' = pr_last st
          \<and> pr_nodes st' = pr_nodes st"
    using parseRange_body_close_at_zero [of U src end' st st'] by blast
  have 6: "\<not> bs_inLine bst \<and> \<not> bs_inSlashStar bst \<and> \<not> bs_inString bst
        \<and> seg ! bs_i bst = CHR ''}'' \<and> bs_depth bst = 0
      \<longrightarrow> bs_depth (buildStmt_body seg bst) = 0"
    using buildStmt_body_normal(4) [of bst seg] by blast
  have 7: "Parse U ''} a; b;'' =
       Some (Inr \<lparr>Nodes =
          [StmtNode (Stmt ''} a;'' 0 4 ''}'' ''} a'' False [] [] [] [] False),
           RawNode (Raw '' '' 4 5),
           StmtNode (Stmt ''b;'' 5 7 ''b'' ''b'' False [] [] [] [] False)],
          file_src = ''} a; b;'', file_path = []\<rparr>)"
    by code_simp
  show ?thesis by (intro conjI 1 2 3 4 5 6 7)
qed

theorem C10_depth_never_negative_witness:
  "parseRange_reach (\<lambda>s. s) ''}{'' 0 2
     \<lparr>pr_i = 2, pr_last = 0, pr_depth = 1, pr_inSlashStar = False, pr_inLine = False,
      pr_inString = False, pr_nodes = []\<rparr>
   \<and> (0::int) \<le> pr_depth
     \<lparr>pr_i = 2, pr_last = 0, pr_depth = 1, pr_inSlashStar = False, pr_inLine = False,
      pr_inString = False, pr_nodes = []\<rparr>
   \<and> buildStmt_reach ''}'' (buildStmt_body ''}'' bs_init)
   \<and> 0 \<le> bs_depth (buildStmt_body ''}'' bs_init)
   \<and> parseRange_body (\<lambda>s. s) ''}{'' 2 (pr_init 0) =
       Some \<lparr>pr_i = 1, pr_last = 0, pr_depth = 0, pr_inSlashStar = False, pr_inLine = False,
             pr_inString = False, pr_nodes = []\<rparr>
   \<and> bs_depth (buildStmt_body ''}'' bs_init) = 0"
proof -
  let ?s1 = "\<lparr>pr_i = 1, pr_last = 0, pr_depth = 0, pr_inSlashStar = False, pr_inLine = False,
             pr_inString = False, pr_nodes = []\<rparr>"
  let ?s2 = "\<lparr>pr_i = 2, pr_last = 0, pr_depth = 1, pr_inSlashStar = False, pr_inLine = False,
      pr_inString = False, pr_nodes = []\<rparr>"
  have b1: "parseRange_body (\<lambda>s. s) ''}{'' 2 (pr_init 0) = Some ?s1" by code_simp
  have b2: "parseRange_body (\<lambda>s. s) ''}{'' 2 ?s1 = Some ?s2" by code_simp
  have "parseRange_reach (\<lambda>s. s) ''}{'' 0 2 ?s1"
    by (rule parseRange_reach.step [OF parseRange_reach.init _ b1]) (simp add: pr_init_def)
  then have r2: "parseRange_reach (\<lambda>s. s) ''}{'' 0 2 ?s2"
    by (rule parseRange_reach.step [OF _ _ b2]) simp
  have r3: "buildStmt_reach ''}'' (buildStmt_body ''}'' bs_init)"
    by (rule buildStmt_reach.step [OF buildStmt_reach.init]) (simp add: bs_init_def)
  have h: "\<not> bs_inLine bs_init \<and> \<not> bs_inSlashStar bs_init \<and> \<not> bs_inString bs_init
        \<and> ''}'' ! bs_i bs_init = CHR ''}'' \<and> bs_depth bs_init = 0"
    by (simp add: bs_init_def)
  note t = C10_depth_never_negative [of "\<lambda>s. s" "''}{''" 0 2 ?s2 "''}''"
      "buildStmt_body ''}'' bs_init" ?s1 ?s1]
  from t r2 have d2: "0 \<le> pr_depth ?s2" by blast
  from t r3 have d3: "0 \<le> bs_depth (buildStmt_body ''}'' bs_init)" by blast
  from C10_depth_never_negative [of "\<lambda>s. s" "''}{''" 0 2 ?s2 "''}''" bs_init ?s1 ?s1] h
  have d4: "bs_depth (buildStmt_body ''}'' bs_init) = 0" by blast
  show ?thesis by (intro conjI r2 d2 r3 d3 b1 d4)
qed

section \<open>Braces inside comments and strings\<close>



section \<open>The error of buildStmt\<close>

lemma bytes_LastIndexByte_less_length: "bytes_LastIndexByte s c < int (length s)"
  by (induction s) (simp_all add: Let_def)











end
